theory Spec2Isabelle
  imports Main "HOL-Library.Word" "HOL-Library.Multiset"
begin

section \<open>The DICOM object model that dcmrmel works on\<close>

text \<open>
  dcmrmel delegates parsing, the dataset objects and their traversal to the pydicom
  library. This section models the part of that library the program calls: a tag is
  a 32-bit number whose upper half is the group, a data element carries a tag, a
  two-letter value representation and a value, and the value of a sequence element is a
  list of nested datasets. A dataset is the dictionary of its elements; it is kept here
  as the list of the dictionary's values in insertion order, the key of an element
  being its tag.
\<close>

type_synonym tag = "32 word"

definition tag_group :: "tag \<Rightarrow> int" where
  "tag_group t = uint (drop_bit 16 t)"

definition is_private :: "tag \<Rightarrow> bool" where
  "is_private t = (tag_group t mod 2 = 1)"

datatype elem = DataElement (tag: tag) (VR: string) (elem_value: val)
and val = Raw string | Sequence "elem list list"

type_synonym dataset = "elem list"

datatype error = KeyError | TypeError | ValueError | OverflowError | RecursionError
  | OSError | InvalidDicomError | SystemExit int

definition keys :: "dataset \<Rightarrow> tag list" where
  "keys ds = map tag ds"

definition contains :: "dataset \<Rightarrow> tag \<Rightarrow> bool" where
  "contains ds t = (t \<in> set (keys ds))"

definition getitem :: "dataset \<Rightarrow> tag \<Rightarrow> error + elem" where
  "getitem ds t = (case find (\<lambda>e. tag e = t) ds of None \<Rightarrow> Inl KeyError | Some e \<Rightarrow> Inr e)"

definition delitem :: "dataset \<Rightarrow> tag \<Rightarrow> error + dataset" where
  "delitem ds t = (if contains ds t then Inr (filter (\<lambda>e. tag e \<noteq> t) ds) else Inl KeyError)"

text \<open>
  The nested datasets of a sequence are objects shared between the element the walk
  holds and the dataset that contains it, so what the walk does to them shows in the
  containing dataset. With values instead of objects, the walked items are stored back
  under the element's tag.
\<close>

definition store_back :: "dataset \<Rightarrow> tag \<Rightarrow> elem \<Rightarrow> dataset" where
  "store_back ds t e' = map (\<lambda>e. if tag e = t then e' else e) ds"

type_synonym callback = "dataset \<Rightarrow> elem \<Rightarrow> error + dataset"

text \<open>
  \<^verbatim>\<open>Dataset.walk(callback)\<close>: the tags are listed and sorted once, before the first
  call; then, for each tag, the element is fetched, the callback runs on the dataset
  and the element, and when the tag is still present and the element is a sequence,
  every item is walked in turn. The first argument bounds the depth of the recursion
  (the interpreter's recursion limit, beyond which Python raises RecursionError). The
  second component of the result lists the elements the callback was called on, in
  the order of the calls.
\<close>

fun walk :: "nat \<Rightarrow> callback \<Rightarrow> dataset \<Rightarrow> error + dataset \<times> elem list"
and walk_tags :: "nat \<Rightarrow> callback \<Rightarrow> tag list \<Rightarrow> dataset \<times> elem list \<Rightarrow> error + dataset \<times> elem list"
and walk_items :: "nat \<Rightarrow> callback \<Rightarrow> dataset list \<Rightarrow> error + dataset list \<times> elem list"
where
  "walk 0 callback self = Inl RecursionError"
| "walk (Suc limit) callback self = walk_tags limit callback (sort (keys self)) (self, [])"
| "walk_tags limit callback [] st = Inr st"
| "walk_tags limit callback (t # taglist) (self, seen) =
     (case getitem self t of
        Inl err \<Rightarrow> Inl err
      | Inr data_element \<Rightarrow>
         (case callback self data_element of
            Inl err \<Rightarrow> Inl err
          | Inr self' \<Rightarrow>
             if contains self' t \<and> VR data_element = ''SQ'' then
               (case elem_value data_element of
                  Raw _ \<Rightarrow> Inl TypeError
                | Sequence items \<Rightarrow>
                   (case walk_items limit callback items of
                      Inl err \<Rightarrow> Inl err
                    | Inr (items', seen') \<Rightarrow>
                        walk_tags limit callback taglist
                          (store_back self' t
                             (DataElement (tag data_element) (VR data_element) (Sequence items')),
                           seen @ data_element # seen')))
             else walk_tags limit callback taglist (self', seen @ [data_element])))"
| "walk_items limit callback [] = Inr ([], [])"
| "walk_items limit callback (item # items) =
     (case walk limit callback item of
        Inl err \<Rightarrow> Inl err
      | Inr (item', seen) \<Rightarrow>
         (case walk_items limit callback items of
            Inl err \<Rightarrow> Inl err
          | Inr (items', seen') \<Rightarrow> Inr (item' # items', seen @ seen')))"

definition returned :: "error + dataset \<times> elem list \<Rightarrow> error + dataset" where
  "returned r = (case r of Inl err \<Rightarrow> Inl err | Inr (ds, seen) \<Rightarrow> Inr ds)"

text \<open>\<^verbatim>\<open>Dataset.remove_private_tags()\<close> is a walk whose callback deletes private elements.\<close>

definition callback_private :: callback where
  "callback_private dataset elem =
     (if is_private (tag elem) then delitem dataset (tag elem) else Inr dataset)"

definition remove_private_tags :: "nat \<Rightarrow> dataset \<Rightarrow> error + dataset" where
  "remove_private_tags limit ds = returned (walk limit callback_private ds)"

section \<open>Python's integer parsing and pydicom's tag constructor\<close>

definition is_space :: "char \<Rightarrow> bool" where
  "is_space c = (c \<in> set [CHR '' '', CHR 0x09, CHR 0x0A, CHR 0x0B, CHR 0x0C, CHR 0x0D])"

definition strip :: "string \<Rightarrow> string" where
  "strip s = rev (dropWhile is_space (rev (dropWhile is_space s)))"

definition hex_digit :: "char \<Rightarrow> int option" where
  "hex_digit c = map_of
     [(CHR ''0'', 0), (CHR ''1'', 1), (CHR ''2'', 2), (CHR ''3'', 3), (CHR ''4'', 4),
      (CHR ''5'', 5), (CHR ''6'', 6), (CHR ''7'', 7), (CHR ''8'', 8), (CHR ''9'', 9),
      (CHR ''a'', 10), (CHR ''b'', 11), (CHR ''c'', 12), (CHR ''d'', 13), (CHR ''e'', 14),
      (CHR ''f'', 15), (CHR ''A'', 10), (CHR ''B'', 11), (CHR ''C'', 12), (CHR ''D'', 13),
      (CHR ''E'', 14), (CHR ''F'', 15)] c"

text \<open>Digits after the first one; a single underscore may stand between two digits.\<close>

fun more_digits :: "int \<Rightarrow> string \<Rightarrow> int option" where
  "more_digits acc [] = Some acc"
| "more_digits acc [c] =
     (case hex_digit c of None \<Rightarrow> None | Some v \<Rightarrow> Some (16 * acc + v))"
| "more_digits acc (c # c' # cs) =
     (if c = CHR ''_'' then
        (case hex_digit c' of None \<Rightarrow> None | Some v \<Rightarrow> more_digits (16 * acc + v) cs)
      else
        (case hex_digit c of None \<Rightarrow> None | Some v \<Rightarrow> more_digits (16 * acc + v) (c' # cs)))"

definition digits16 :: "string \<Rightarrow> int option" where
  "digits16 s = (case s of [] \<Rightarrow> None
                 | c # cs \<Rightarrow> (case hex_digit c of None \<Rightarrow> None | Some v \<Rightarrow> more_digits v cs))"

text \<open>
  \<^verbatim>\<open>int(s, 16)\<close> on an ASCII string: surrounding whitespace, an optional sign, an
  optional \<^verbatim>\<open>0x\<close> prefix (after which one underscore is allowed), then the digits.
\<close>

definition py_int16 :: "string \<Rightarrow> error + int" where
  "py_int16 s =
     (let t = strip s;
          negative = (take 1 t = ''-'');
          u = (if take 1 t = ''-'' \<or> take 1 t = ''+'' then drop 1 t else t);
          v = (if take 2 u = ''0x'' \<or> take 2 u = ''0X''
               then (if take 1 (drop 2 u) = ''_'' then drop 3 u else drop 2 u)
               else u)
      in case digits16 v of
           None \<Rightarrow> Inl ValueError
         | Some n \<Rightarrow> Inr (if negative then - n else n))"

text \<open>
  \<^verbatim>\<open>pydicom.tag.Tag(arg)\<close> for a string: the string is read as a hexadecimal number
  first, and looked up as a keyword of the DICOM dictionary when it is not one. The
  dictionary is a table of the library and a parameter here.
\<close>

definition Tag :: "(string \<Rightarrow> tag option) \<Rightarrow> string \<Rightarrow> error + tag" where
  "Tag tag_for_keyword arg =
     (case py_int16 arg of
        Inr long_value \<Rightarrow>
          if long_value > 0xFFFFFFFF then Inl OverflowError
          else if long_value < 0 then Inl ValueError
          else Inr (word_of_int long_value)
      | Inl _ \<Rightarrow>
          (case tag_for_keyword arg of None \<Rightarrow> Inl ValueError | Some t \<Rightarrow> Inr t))"

section \<open>The removal passes of dcmrmel\<close>

definition callback_tags :: "tag list \<Rightarrow> callback" where
  "callback_tags tags_to_rm ds_a elem =
     (if tag elem \<in> set tags_to_rm then delitem ds_a (tag elem) else Inr ds_a)"

definition remove_tags :: "nat \<Rightarrow> dataset \<Rightarrow> tag list \<Rightarrow> error + dataset" where
  "remove_tags limit ds tags_to_rm = returned (walk limit (callback_tags tags_to_rm) ds)"

definition callback_vr :: "string list \<Rightarrow> callback" where
  "callback_vr vrs_to_remove ds_a elem =
     (if VR elem \<in> set vrs_to_remove then delitem ds_a (tag elem) else Inr ds_a)"

definition remove_vr_tags :: "nat \<Rightarrow> dataset \<Rightarrow> string list \<Rightarrow> error + dataset" where
  "remove_vr_tags limit ds vrs_to_remove = returned (walk limit (callback_vr vrs_to_remove) ds)"

fun parse_groups :: "string list \<Rightarrow> error + int list" where
  "parse_groups [] = Inr []"
| "parse_groups (grp # groups) =
     (case py_int16 grp of
        Inl err \<Rightarrow> Inl err
      | Inr g \<Rightarrow> (case parse_groups groups of Inl err \<Rightarrow> Inl err | Inr gs \<Rightarrow> Inr (g # gs)))"

definition callback_group :: "int list \<Rightarrow> callback" where
  "callback_group group_rm ds_a elem =
     (if tag_group (tag elem) \<in> set group_rm then delitem ds_a (tag elem) else Inr ds_a)"

definition remove_group_tags :: "nat \<Rightarrow> dataset \<Rightarrow> string list \<Rightarrow> error + dataset" where
  "remove_group_tags limit ds groups_to_remove =
     (case parse_groups groups_to_remove of
        Inl err \<Rightarrow> Inl err
      | Inr group_rm \<Rightarrow> returned (walk limit (callback_group group_rm) ds))"


section \<open>Files, paths and the outside world\<close>

type_synonym path = "string list"

text \<open>
  A path is the list of its components. \<^verbatim>\<open>pathlib.Path(s)\<close> splits the string at the
  separators, dropping empty components and single dots; an absolute path keeps the
  root as its first component, which is \<^verbatim>\<open>//\<close> when the string starts with exactly
  two separators and \<^verbatim>\<open>/\<close> otherwise.
\<close>

fun components :: "string \<Rightarrow> string \<Rightarrow> string list" where
  "components cur [] = (if cur = [] \<or> cur = ''.'' then [] else [cur])"
| "components cur (c # cs) =
     (if c = CHR ''/'' then (if cur = [] \<or> cur = ''.'' then [] else [cur]) @ components [] cs
      else components (cur @ [c]) cs)"

definition Path :: "string \<Rightarrow> path" where
  "Path s = (if take 2 s = ''//'' \<and> take 3 s \<noteq> ''///'' then [''//'']
             else if take 1 s = ''/'' then [''/'']
             else []) @ components [] s"

fun joined :: "string list \<Rightarrow> string" where
  "joined [] = []"
| "joined [c] = c"
| "joined (c # cs) = c @ ''/'' @ joined cs"

definition path_str :: "path \<Rightarrow> string" where
  "path_str p = (if p = [] then ''.''
                 else if hd p = ''/'' \<or> hd p = ''//'' then hd p @ joined (tl p)
                 else joined p)"

definition path_name :: "path \<Rightarrow> string" where
  "path_name p = (if p = [] \<or> p = [''/''] \<or> p = [''//''] then [] else last p)"

definition rfind_dot :: "string \<Rightarrow> nat option" where
  "rfind_dot s = (case [i \<leftarrow> rev [0..<length s]. s ! i = CHR ''.''] of [] \<Rightarrow> None | i # _ \<Rightarrow> Some i)"

definition suffix_of :: "string \<Rightarrow> string" where
  "suffix_of nm =
     (case rfind_dot nm of
        None \<Rightarrow> []
      | Some i \<Rightarrow> if 0 < i \<and> i + 1 < length nm then drop i nm else [])"

definition with_suffix :: "path \<Rightarrow> string \<Rightarrow> error + path" where
  "with_suffix p new_suffix =
     (if CHR ''/'' \<in> set new_suffix then Inl ValueError
      else if (new_suffix \<noteq> [] \<and> take 1 new_suffix \<noteq> ''.'') \<or> new_suffix = ''.'' then Inl ValueError
      else if path_name p = [] then Inl ValueError
      else
        let nm = path_name p; old_suffix = suffix_of nm in
        Inr (butlast p @
             [if old_suffix = [] then nm @ new_suffix
              else take (length nm - length old_suffix) nm @ new_suffix]))"

datatype printed = HelpText | VersionText | UsageText | Text string | Progress nat nat

datatype io_call = Dcmread path | Copy path path | SaveAs path

text \<open>
  What becomes of an attempt to write a file: the bytes are stored, or the file cannot
  be opened for writing (no permission, a read-only directory, a name that is too
  long) and nothing changes, or the write stops with an error after the file was
  opened and leaves other bytes there (a full disk).
\<close>

datatype outcome = Stored | Denied | Cut string

text \<open>
  What \<^verbatim>\<open>stat\<close> finds at a path: a regular file, a directory, neither of them (nothing
  there, a broken link, a device), or no answer because the path cannot be looked up
  (a name that is too long, a directory on the way that may not be searched).
\<close>

datatype status = Regular | Directory | Neither | Inaccessible

text \<open>
  The state outside the program: the bytes that reading a path gives (nothing when the
  path cannot be opened for reading), what \<^verbatim>\<open>stat\<close> finds at a path, what \<^verbatim>\<open>os.walk\<close>
  lists under a directory (one triple of directory, subdirectory names and file names
  per directory, in walk order; no entry when nothing can be listed), what becomes of
  writing given bytes to a path, what was written to the two output streams, and the
  calls on files that have returned so far.
\<close>

record world =
  files :: "path \<Rightarrow> string option"
  status :: "path \<Rightarrow> status"
  os_walk :: "path \<Rightarrow> (path \<times> string list \<times> string list) list option"
  writing :: "path \<Rightarrow> string \<Rightarrow> outcome"
  stdout :: "printed list"
  stderr :: "printed list"
  calls :: "io_call list"

text \<open>
  \<^verbatim>\<open>Path.is_file()\<close> and \<^verbatim>\<open>Path.is_dir()\<close> raise the error of a path that cannot be looked
  up; \<^verbatim>\<open>os.path.isdir\<close> answers no instead.
\<close>

definition is_file :: "world \<Rightarrow> path \<Rightarrow> error + bool" where
  "is_file w p = (if status w p = Inaccessible then Inl OSError else Inr (status w p = Regular))"

definition is_dir :: "world \<Rightarrow> path \<Rightarrow> error + bool" where
  "is_dir w p = (if status w p = Inaccessible then Inl OSError else Inr (status w p = Directory))"

definition isdir :: "world \<Rightarrow> path \<Rightarrow> bool" where
  "isdir w p = (status w p = Directory)"

text \<open>\<^verbatim>\<open>pydicom.misc.is_dicom\<close>: the four bytes after the 128-byte preamble.\<close>

definition is_dicom :: "world \<Rightarrow> path \<Rightarrow> error + bool" where
  "is_dicom w file_path =
     (case files w file_path of
        None \<Rightarrow> Inl OSError
      | Some content \<Rightarrow> Inr (take 4 (drop 128 content) = ''DICM''))"

text \<open>Writing bytes to a path, as the world lets it happen.\<close>

definition write_file :: "path \<Rightarrow> string \<Rightarrow> world \<Rightarrow> (error + unit) \<times> world" where
  "write_file p content w =
     (case writing w p content of
        Stored \<Rightarrow>
          (Inr (), w\<lparr>files := (files w)(p \<mapsto> content), status := (status w)(p := Regular)\<rparr>)
      | Denied \<Rightarrow> (Inl OSError, w)
      | Cut part \<Rightarrow>
          (Inl OSError, w\<lparr>files := (files w)(p \<mapsto> part), status := (status w)(p := Regular)\<rparr>))"

text \<open>
  \<^verbatim>\<open>shutil.copy(src, dst)\<close>: the contents of the source are written to the destination,
  or into it under the source's name when the destination is a directory. Copying a
  file onto itself, a source that cannot be read and a destination that cannot be
  written all raise an \<^verbatim>\<open>OSError\<close>.
\<close>

definition shutil_copy :: "path \<Rightarrow> path \<Rightarrow> world \<Rightarrow> (error + unit) \<times> world" where
  "shutil_copy src dst w =
     (let target = (if isdir w dst then dst @ [path_name src] else dst) in
      if target = src then (Inl OSError, w)
      else
        (case files w src of
           None \<Rightarrow> (Inl OSError, w)
         | Some content \<Rightarrow>
            (case write_file target content w of
               (Inl err, w') \<Rightarrow> (Inl err, w')
             | (Inr u, w') \<Rightarrow> (Inr (), w'\<lparr>calls := calls w' @ [Copy src dst]\<rparr>))))"

section \<open>File discovery\<close>

fun scan_files :: "world \<Rightarrow> path \<Rightarrow> string list \<Rightarrow> path list \<Rightarrow> error + path list" where
  "scan_files w root [] fp_list = Inr fp_list"
| "scan_files w root (fn # fns) fp_list =
     (case is_dicom w (root @ [fn]) of
        Inl err \<Rightarrow> Inl err
      | Inr dicom \<Rightarrow> scan_files w root fns (if dicom then fp_list @ [root @ [fn]] else fp_list))"

fun scan_walk :: "world \<Rightarrow> (path \<times> string list \<times> string list) list \<Rightarrow> path list \<Rightarrow> error + path list" where
  "scan_walk w [] fp_list = Inr fp_list"
| "scan_walk w ((root, dirs, fns) # rest) fp_list =
     (case scan_files w root fns fp_list of
        Inl err \<Rightarrow> Inl err
      | Inr fp_list' \<Rightarrow> scan_walk w rest fp_list')"

text \<open>The end of \<^verbatim>\<open>make_dcm_fp_list\<close>: an empty list is fatal.\<close>

definition check_found :: "error + path list \<Rightarrow> world \<Rightarrow> (error + path list) \<times> world" where
  "check_found found w =
     (case found of
        Inl err \<Rightarrow> (Inl err, w)
      | Inr fp_list \<Rightarrow>
          if length fp_list = 0 then
            (Inl (SystemExit 1),
             w\<lparr>stderr := stderr w @ [Text (''ERROR: No valid DICOM files found, exiting'' @ [CHR 0x0A])]\<rparr>)
          else (Inr fp_list, w))"

definition make_dcm_fp_list :: "path \<Rightarrow> world \<Rightarrow> (error + path list) \<times> world" where
  "make_dcm_fp_list pth w =
     (case is_file w pth of
        Inl err \<Rightarrow> (Inl err, w)
      | Inr file \<Rightarrow>
         if file then
           check_found
             (case is_dicom w pth of
                Inl err \<Rightarrow> Inl err
              | Inr dicom \<Rightarrow> Inr (if dicom then [pth] else [])) w
         else
           (case is_dir w pth of
              Inl err \<Rightarrow> (Inl err, w)
            | Inr dir \<Rightarrow>
               if dir then
                 check_found
                   (case os_walk w pth of None \<Rightarrow> Inr [] | Some listing \<Rightarrow> scan_walk w listing []) w
               else
                 (Inl (SystemExit 1),
                  w\<lparr>stderr := stderr w @
                     [Text (''ERROR: '' @ path_str pth @ '' is neither a file or directory'' @
                            [CHR 0x0A])]\<rparr>)))"

section \<open>The command line\<close>

record args =
  d :: path
  no_backup :: bool
  rm_private :: bool
  rm_vr :: "string list option"
  rm_group :: "string list option"
  rm_tag :: "string list option"

datatype parsed = Parsed args | Help | Version | Usage

text \<open>
  The parser that \<^verbatim>\<open>main\<close> declares, as \<^verbatim>\<open>argparse\<close> of Python 3.11 reads a command
  line with it. Every argument before the first \<^verbatim>\<open>--\<close> is classified first: a declared
  option string, alone or followed by \<^verbatim>\<open>=\<close> and a value; an abbreviation of one long
  option (of several, an error); \<^verbatim>\<open>-h\<close> with more characters attached; otherwise an
  argument when it is empty, a single dash, does not start with a dash, looks like a
  negative number or contains a space, and an unrecognised option when none of these.
\<close>

definition option_strings :: "string list" where
  "option_strings = [''-h'', ''--help'', ''--no-backup'', ''--rm-private'', ''--rm-vr'',
                     ''--rm-group'', ''--rm-tag'', ''--version'']"

datatype token = Argument string | Option_string string "(string \<times> string) option"
  | Unrecognised | Ambiguous | Double_dash

definition is_digit :: "char \<Rightarrow> bool" where
  "is_digit c = (c \<in> set ''0123456789'')"

text \<open>The pattern \<^verbatim>\<open>^-\d+$|^-\d*\.\d+$\<close>, whose end also matches before a final newline.\<close>

definition negative_number :: "string \<Rightarrow> bool" where
  "negative_number a =
     (let b = (if a \<noteq> [] \<and> last a = CHR 0x0A then butlast a else a);
          whole = takeWhile is_digit (drop 1 b);
          frac = dropWhile is_digit (drop 1 b)
      in take 1 b = ''-'' \<and>
         ((whole \<noteq> [] \<and> frac = []) \<or>
          (take 1 frac = ''.'' \<and> drop 1 frac \<noteq> [] \<and> list_all is_digit (drop 1 frac))))"

definition option_tuples :: "string \<Rightarrow> token list" where
  "option_tuples a =
     (if take 1 (drop 1 a) = ''-'' then
        (let option_prefix = takeWhile (\<lambda>c. c \<noteq> CHR ''='') a;
             explicit_arg = (if CHR ''='' \<in> set a
                             then Some (''='', drop (length option_prefix + 1) a) else None)
         in map (\<lambda>option_string. Option_string option_string explicit_arg)
              (filter (\<lambda>option_string. take (length option_prefix) option_string = option_prefix)
                 option_strings))
      else
        concat (map (\<lambda>option_string.
                  if option_string = take 2 a then [Option_string option_string (Some ([], drop 2 a))]
                  else if take (length a) option_string = a then [Option_string option_string None]
                  else [])
                option_strings))"

definition parse_optional :: "string \<Rightarrow> token" where
  "parse_optional a =
     (if a = [] then Argument a
      else if hd a \<noteq> CHR ''-'' then Argument a
      else if a \<in> set option_strings then Option_string a None
      else if length a = 1 then Argument a
      else if CHR ''='' \<in> set a \<and> takeWhile (\<lambda>c. c \<noteq> CHR ''='') a \<in> set option_strings then
        Option_string (takeWhile (\<lambda>c. c \<noteq> CHR ''='') a)
          (Some (''='', drop (length (takeWhile (\<lambda>c. c \<noteq> CHR ''='') a) + 1) a))
      else
        (case option_tuples a of
           t # t' # ts \<Rightarrow> Ambiguous
         | [t] \<Rightarrow> t
         | [] \<Rightarrow> if negative_number a then Argument a
                  else if CHR '' '' \<in> set a then Argument a
                  else Unrecognised))"

text \<open>After the first \<^verbatim>\<open>--\<close> every argument is an argument, whatever it looks like.\<close>

fun classify :: "string list \<Rightarrow> token list" where
  "classify [] = []"
| "classify (a # rest) =
     (if a = ''--'' then Double_dash # map Argument rest
      else parse_optional a # classify rest)"

text \<open>
  Characters attached to \<^verbatim>\<open>-h\<close>, the only one-letter option: the help is queued, and
  the characters are read as more one-letter options. What is queued runs when the
  reading ends at a character that is no option; a dash or a \<^verbatim>\<open>=\<close> in the way is an
  error raised before anything runs.
\<close>

fun short_options :: "string \<Rightarrow> string \<Rightarrow> parsed" where
  "short_options sep [] = Usage"
| "short_options sep (c # cs) =
     (if sep \<noteq> [] \<or> c = CHR ''-'' then Usage
      else if [CHR ''-'', c] \<in> set option_strings then
        (case cs of
           [] \<Rightarrow> Help
         | c' # cs' \<Rightarrow> if c' = CHR ''='' then short_options ''='' cs' else short_options [] cs)
      else Help)"

definition is_argument :: "token \<Rightarrow> bool" where
  "is_argument t = (case t of Argument a \<Rightarrow> True | _ \<Rightarrow> False)"

definition arguments :: "token list \<Rightarrow> string list" where
  "arguments ts = concat (map (\<lambda>t. case t of Argument a \<Rightarrow> [a] | _ \<Rightarrow> []) ts)"

text \<open>
  The tokens are then consumed from left to right. The help and version options end
  the run at once. A list option takes the value attached with \<^verbatim>\<open>=\<close>, or else the
  arguments that follow it up to the next option or \<^verbatim>\<open>--\<close>, and needs at least one. The
  first argument left over is the path, and it takes a \<^verbatim>\<open>--\<close> before or after it along.
  Anything else left over, or no path, is a usage error at the end.
\<close>

function consume :: "token list \<Rightarrow> path option \<Rightarrow> bool \<Rightarrow> args \<Rightarrow> parsed" where
  "consume [] positional extras ns =
     (case positional of
        None \<Rightarrow> Usage
      | Some p \<Rightarrow> if extras then Usage else Parsed (ns\<lparr>d := p\<rparr>))"
| "consume (Argument a # rest) positional extras ns =
     (if positional = None then
        consume (if take 1 rest = [Double_dash] then drop 1 rest else rest) (Some (Path a)) extras ns
      else consume rest positional True ns)"
| "consume (Double_dash # rest) positional extras ns =
     (if positional = None then
        (case rest of
           Argument a # rest' \<Rightarrow> consume rest' (Some (Path a)) extras ns
         | _ \<Rightarrow> consume rest positional True ns)
      else consume rest positional True ns)"
| "consume (Unrecognised # rest) positional extras ns = consume rest positional True ns"
| "consume (Ambiguous # rest) positional extras ns = Usage"
| "consume (Option_string option_string explicit_arg # rest) positional extras ns =
     (if option_string \<in> set [''-h'', ''--help'', ''--version'', ''--no-backup'', ''--rm-private''] then
        (case explicit_arg of
           Some (sep, e) \<Rightarrow>
             if take 1 (drop 1 option_string) \<noteq> ''-'' \<and> e \<noteq> [] then short_options sep e
             else Usage
         | None \<Rightarrow>
             if option_string = ''-h'' \<or> option_string = ''--help'' then Help
             else if option_string = ''--version'' then Version
             else if option_string = ''--no-backup'' then
               consume rest positional extras (ns\<lparr>no_backup := True\<rparr>)
             else consume rest positional extras (ns\<lparr>rm_private := True\<rparr>))
      else
        (let vals = (case explicit_arg of
                         Some (sep, e) \<Rightarrow> [e]
                       | None \<Rightarrow> arguments (takeWhile is_argument rest));
             rest' = (case explicit_arg of
                        Some (sep, e) \<Rightarrow> rest
                      | None \<Rightarrow> dropWhile is_argument rest)
         in if vals = [] then Usage
            else if option_string = ''--rm-vr'' then
              consume rest' positional extras (ns\<lparr>rm_vr := Some vals\<rparr>)
            else if option_string = ''--rm-group'' then
              consume rest' positional extras (ns\<lparr>rm_group := Some vals\<rparr>)
            else consume rest' positional extras (ns\<lparr>rm_tag := Some vals\<rparr>)))"
  by pat_completeness auto
termination
  by (relation "measure (\<lambda>(ts, p, e, ns). length ts)")
     (auto simp: less_Suc_eq_le length_dropWhile_le split: option.splits)

definition defaults :: args where
  "defaults = \<lparr>d = [], no_backup = False, rm_private = False,
               rm_vr = None, rm_group = None, rm_tag = None\<rparr>"

definition parse_args :: "string list \<Rightarrow> world \<Rightarrow> (error + args) \<times> world" where
  "parse_args arg_strings w =
     (case (if Ambiguous \<in> set (classify arg_strings) then Usage
            else consume (classify arg_strings) None False defaults) of
        Help \<Rightarrow> (Inl (SystemExit 0), w\<lparr>stdout := stdout w @ [HelpText]\<rparr>)
      | Version \<Rightarrow> (Inl (SystemExit 0), w\<lparr>stdout := stdout w @ [VersionText]\<rparr>)
      | Usage \<Rightarrow> (Inl (SystemExit 2), w\<lparr>stderr := stderr w @ [UsageText]\<rparr>)
      | Parsed a \<Rightarrow> (Inr a, w))"

section \<open>Processing the files\<close>

record file_dataset =
  elements :: dataset
  file_meta :: dataset

text \<open>
  What the writer of the DICOM encoding makes of a dataset: all its bytes, or an error
  raised before the file is opened, or an error raised after the file was opened and
  some bytes were written.
\<close>

datatype encoded = Complete string | Broken string error | Refused error

text \<open>
  What the program takes from the library besides the dataset objects: the reader and
  the writer of the DICOM encoding, the keyword table of the DICOM dictionary, and the
  interpreter's bound on nested calls.
\<close>

record library =
  dcmread :: "string \<Rightarrow> error + file_dataset"
  dcmwrite :: "file_dataset \<Rightarrow> encoded"
  tag_for_keyword :: "string \<Rightarrow> tag option"
  recursion_limit :: nat

definition MediaStorageSOPClassUID :: tag where
  "MediaStorageSOPClassUID = 0x00020002"

definition MediaStorageDirectoryStorage :: string where
  "MediaStorageDirectoryStorage = ''1.2.840.10008.1.3.10''"

text \<open>\<^verbatim>\<open>ds.get(keyword, None)\<close>: the value of the element, or nothing.\<close>

definition get_value :: "dataset \<Rightarrow> tag \<Rightarrow> val option" where
  "get_value ds t = (case getitem ds t of Inl err \<Rightarrow> None | Inr e \<Rightarrow> Some (elem_value e))"

definition is_dicomdir :: "file_dataset \<Rightarrow> bool" where
  "is_dicomdir ds =
     (get_value (file_meta ds) MediaStorageSOPClassUID = Some (Raw MediaStorageDirectoryStorage))"

text \<open>
  The progress line. Its text holds a percentage computed in floating point, which is
  left out: what is printed is recorded as the counter and the number of files.
\<close>

definition progress :: "nat \<Rightarrow> nat \<Rightarrow> world \<Rightarrow> world" where
  "progress cnt n_total w = w\<lparr>stdout := stdout w @ [Progress cnt n_total]\<rparr>"

fun resolve_tags :: "(string \<Rightarrow> tag option) \<Rightarrow> string list \<Rightarrow> error + tag list" where
  "resolve_tags dict [] = Inr []"
| "resolve_tags dict (tag_to_rm # others) =
     (case Tag dict tag_to_rm of
        Inl err \<Rightarrow> Inl err
      | Inr t \<Rightarrow> (case resolve_tags dict others of Inl err \<Rightarrow> Inl err | Inr ts \<Rightarrow> Inr (t # ts)))"

definition pass_private :: "library \<Rightarrow> args \<Rightarrow> file_dataset \<Rightarrow> error + file_dataset" where
  "pass_private lib a ds =
     (if rm_private a then
        (case remove_private_tags (recursion_limit lib) (elements ds) of
           Inl err \<Rightarrow> Inl err
         | Inr main' \<Rightarrow> Inr (ds\<lparr>elements := main'\<rparr>))
      else Inr ds)"

definition pass_vr :: "library \<Rightarrow> args \<Rightarrow> file_dataset \<Rightarrow> error + file_dataset" where
  "pass_vr lib a ds =
     (case rm_vr a of
        None \<Rightarrow> Inr ds
      | Some vrs \<Rightarrow>
         (case remove_vr_tags (recursion_limit lib) (elements ds) vrs of
            Inl err \<Rightarrow> Inl err
          | Inr main' \<Rightarrow>
             (case remove_vr_tags (recursion_limit lib) (file_meta ds) vrs of
                Inl err \<Rightarrow> Inl err
              | Inr meta' \<Rightarrow> Inr (ds\<lparr>elements := main', file_meta := meta'\<rparr>))))"

definition pass_group :: "library \<Rightarrow> args \<Rightarrow> file_dataset \<Rightarrow> error + file_dataset" where
  "pass_group lib a ds =
     (case rm_group a of
        None \<Rightarrow> Inr ds
      | Some groups \<Rightarrow>
         (case remove_group_tags (recursion_limit lib) (elements ds) groups of
            Inl err \<Rightarrow> Inl err
          | Inr main' \<Rightarrow>
             (case remove_group_tags (recursion_limit lib) (file_meta ds) groups of
                Inl err \<Rightarrow> Inl err
              | Inr meta' \<Rightarrow> Inr (ds\<lparr>elements := main', file_meta := meta'\<rparr>))))"

definition pass_tag :: "library \<Rightarrow> args \<Rightarrow> file_dataset \<Rightarrow> error + file_dataset" where
  "pass_tag lib a ds =
     (case rm_tag a of
        None \<Rightarrow> Inr ds
      | Some [] \<Rightarrow> Inr ds
      | Some (t # ts) \<Rightarrow>
         (case resolve_tags (tag_for_keyword lib) (t # ts) of
            Inl err \<Rightarrow> Inl err
          | Inr tag_to_rm_list \<Rightarrow>
             (case remove_tags (recursion_limit lib) (elements ds) tag_to_rm_list of
                Inl err \<Rightarrow> Inl err
              | Inr main' \<Rightarrow>
                 (case remove_tags (recursion_limit lib) (file_meta ds) tag_to_rm_list of
                    Inl err \<Rightarrow> Inl err
                  | Inr meta' \<Rightarrow> Inr (ds\<lparr>elements := main', file_meta := meta'\<rparr>)))))"

definition and_then :: "error + 'a \<Rightarrow> ('a \<Rightarrow> error + 'b) \<Rightarrow> error + 'b" where
  "and_then r f = (case r of Inl err \<Rightarrow> Inl err | Inr x \<Rightarrow> f x)"

definition apply_passes :: "library \<Rightarrow> args \<Rightarrow> file_dataset \<Rightarrow> error + file_dataset" where
  "apply_passes lib a ds =
     and_then (and_then (and_then (pass_private lib a ds) (pass_vr lib a)) (pass_group lib a))
       (pass_tag lib a)"

definition backup :: "args \<Rightarrow> path \<Rightarrow> world \<Rightarrow> (error + unit) \<times> world" where
  "backup a fp w =
     (if \<not> no_backup a then
        (case with_suffix fp (suffix_of (path_name fp) @ ''.bak'') of
           Inl err \<Rightarrow> (Inl err, w)
         | Inr fp_bak \<Rightarrow> shutil_copy fp fp_bak w)
      else (Inr (), w))"

text \<open>
  \<^verbatim>\<open>ds.save_as(fp)\<close>: the library checks the dataset, opens the file for writing and
  writes the encoding to it.
\<close>

definition save_as :: "library \<Rightarrow> file_dataset \<Rightarrow> path \<Rightarrow> world \<Rightarrow> (error + unit) \<times> world" where
  "save_as lib ds fp w =
     (case dcmwrite lib ds of
        Refused err \<Rightarrow> (Inl err, w)
      | Broken part err \<Rightarrow>
         (case write_file fp part w of
            (Inl err', w') \<Rightarrow> (Inl err', w')
          | (Inr u, w') \<Rightarrow> (Inl err, w'))
      | Complete content \<Rightarrow>
         (case write_file fp content w of
            (Inl err', w') \<Rightarrow> (Inl err', w')
          | (Inr u, w') \<Rightarrow> (Inr (), w'\<lparr>calls := calls w' @ [SaveAs fp]\<rparr>)))"

text \<open>One round of the loop of \<^verbatim>\<open>main\<close>.\<close>

definition process_file :: "library \<Rightarrow> args \<Rightarrow> nat \<Rightarrow> nat \<Rightarrow> path \<Rightarrow> world \<Rightarrow> (error + unit) \<times> world" where
  "process_file lib a n_total fp_cnt fp w0 =
     (let w = progress fp_cnt n_total w0 in
      case files w fp of
        None \<Rightarrow> (Inl OSError, w)
      | Some content \<Rightarrow>
         (case dcmread lib content of
            Inl err \<Rightarrow> (Inl err, w)
          | Inr ds \<Rightarrow>
             let w1 = w\<lparr>calls := calls w @ [Dcmread fp]\<rparr> in
             if is_dicomdir ds then (Inr (), w1)
             else
               (case backup a fp w1 of
                  (Inl err, w2) \<Rightarrow> (Inl err, w2)
                | (Inr u, w2) \<Rightarrow>
                   (case apply_passes lib a ds of
                      Inl err \<Rightarrow> (Inl err, w2)
                    | Inr ds' \<Rightarrow> save_as lib ds' fp w2))))"

fun main_loop :: "library \<Rightarrow> args \<Rightarrow> nat \<Rightarrow> nat \<Rightarrow> path list \<Rightarrow> world \<Rightarrow> (error + unit) \<times> world" where
  "main_loop lib a n_total fp_cnt [] w = (Inr (), w)"
| "main_loop lib a n_total fp_cnt (fp # fps) w =
     (case process_file lib a n_total fp_cnt fp w of
        (Inl err, w') \<Rightarrow> (Inl err, w')
      | (Inr u, w') \<Rightarrow> main_loop lib a n_total (Suc fp_cnt) fps w')"

definition main :: "library \<Rightarrow> string list \<Rightarrow> world \<Rightarrow> (error + unit) \<times> world" where
  "main lib argv w =
     (let argv' = (if length argv = 1 then argv @ [''-h''] else argv) in
      case parse_args (tl argv') w of
        (Inl err, w1) \<Rightarrow> (Inl err, w1)
      | (Inr a, w1) \<Rightarrow>
         (case make_dcm_fp_list (d a) w1 of
            (Inl err, w2) \<Rightarrow> (Inl err, w2)
          | (Inr fp_list, w2) \<Rightarrow> main_loop lib a (length fp_list) 1 fp_list w2))"


section \<open>What the passes are meant to compute\<close>

text \<open>
  The dataset without the elements that satisfy \<open>P\<close>, at every depth: an element
  that satisfies \<open>P\<close> goes (a sequence together with its items), any other element
  stays, and the items of a sequence that stays are treated alike.
\<close>

fun prune :: "(elem \<Rightarrow> bool) \<Rightarrow> dataset \<Rightarrow> dataset" where
  "prune P [] = []"
| "prune P (DataElement t vr (Raw s) # ds) =
     (if P (DataElement t vr (Raw s)) then prune P ds
      else DataElement t vr (Raw s) # prune P ds)"
| "prune P (DataElement t vr (Sequence items) # ds) =
     (if P (DataElement t vr (Sequence items)) then prune P ds
      else DataElement t vr (Sequence (map (prune P) items)) # prune P ds)"

text \<open>
  The elements of a dataset at every depth, except those inside a sequence that
  satisfies \<open>P\<close>; with a predicate that never holds, all the elements at every depth.
\<close>

fun exposed :: "(elem \<Rightarrow> bool) \<Rightarrow> dataset \<Rightarrow> elem list" where
  "exposed P [] = []"
| "exposed P (DataElement t vr (Raw s) # ds) = DataElement t vr (Raw s) # exposed P ds"
| "exposed P (DataElement t vr (Sequence items) # ds) =
     DataElement t vr (Sequence items)
       # (if P (DataElement t vr (Sequence items)) then [] else concat (map (exposed P) items))
       @ exposed P ds"

definition all_elems :: "dataset \<Rightarrow> elem list" where
  "all_elems ds = exposed (\<lambda>e. False) ds"

text \<open>An element without what is inside its items: tag, VR, and the value or the number of items.\<close>

fun own :: "elem \<Rightarrow> elem" where
  "own (DataElement t vr (Raw s)) = DataElement t vr (Raw s)"
| "own (DataElement t vr (Sequence items)) = DataElement t vr (Sequence (map (\<lambda>i. []) items))"

fun nesting :: "dataset \<Rightarrow> nat" where
  "nesting [] = 0"
| "nesting (DataElement t vr (Raw s) # ds) = nesting ds"
| "nesting (DataElement t vr (Sequence items) # ds) =
     max (Suc (fold max (map nesting items) 0)) (nesting ds)"

text \<open>
  How deep a pass that removes the elements satisfying \<open>P\<close> goes into a dataset: the
  greatest number of sequences, one inside the other, whose items it walks. The
  sequences it removes are not entered and do not count, nor does a sequence with no
  item.
\<close>

fun reach :: "(elem \<Rightarrow> bool) \<Rightarrow> dataset \<Rightarrow> nat" where
  "reach P [] = 0"
| "reach P (DataElement t vr (Raw s) # ds) = reach P ds"
| "reach P (DataElement t vr (Sequence items) # ds) =
     max (if P (DataElement t vr (Sequence items)) then 0
          else fold max (map (\<lambda>item. Suc (reach P item)) items) 0)
         (reach P ds)"

text \<open>
  The datasets the library builds: a dictionary has one element per tag, and the
  elements of VR SQ are those whose value is a list of datasets.
\<close>

fun valid :: "dataset \<Rightarrow> bool" and valid_elem :: "elem \<Rightarrow> bool" where
  "valid ds = (distinct (map tag ds) \<and> (\<forall>e \<in> set ds. valid_elem e))"
| "valid_elem (DataElement t vr (Raw s)) = (vr \<noteq> ''SQ'')"
| "valid_elem (DataElement t vr (Sequence items)) = (vr = ''SQ'' \<and> (\<forall>i \<in> set items. valid i))"

definition the_list :: "'a list option \<Rightarrow> 'a list" where
  "the_list xs = (case xs of None \<Rightarrow> [] | Some ys \<Rightarrow> ys)"

text \<open>The paths file discovery looks at, and the test it applies to each.\<close>

definition candidates :: "world \<Rightarrow> path \<Rightarrow> path list" where
  "candidates w pth =
     (if status w pth = Regular then [pth]
      else concat (map (\<lambda>(root, dirs, fns). map (\<lambda>fn. root @ [fn]) fns) (the_list (os_walk w pth))))"

definition has_magic :: "world \<Rightarrow> path \<Rightarrow> bool" where
  "has_magic w p = (case files w p of None \<Rightarrow> False | Some content \<Rightarrow> take 4 (drop 128 content) = ''DICM'')"

subsection \<open>Auxiliary notions for the proofs\<close>

definition deleting :: "(elem \<Rightarrow> bool) \<Rightarrow> callback" where
  "deleting P ds_a elem = (if P elem then delitem ds_a (tag elem) else Inr ds_a)"

fun descend :: "(elem \<Rightarrow> bool) \<Rightarrow> elem \<Rightarrow> elem" where
  "descend P (DataElement t vr (Raw s)) = DataElement t vr (Raw s)"
| "descend P (DataElement t vr (Sequence items)) = DataElement t vr (Sequence (map (prune P) items))"

fun beneath :: "(elem \<Rightarrow> bool) \<Rightarrow> elem \<Rightarrow> elem list" where
  "beneath P (DataElement t vr (Raw s)) = []"
| "beneath P (DataElement t vr (Sequence items)) =
     (if P (DataElement t vr (Sequence items)) then [] else concat (map (exposed P) items))"

definition settle :: "(elem \<Rightarrow> bool) \<Rightarrow> tag set \<Rightarrow> elem \<Rightarrow> elem list" where
  "settle P T e = (if tag e \<in> T then (if P e then [] else [descend P e]) else [e])"

definition partly :: "(elem \<Rightarrow> bool) \<Rightarrow> tag set \<Rightarrow> dataset \<Rightarrow> dataset" where
  "partly P T ds = concat (map (settle P T) ds)"

definition good :: "nat \<Rightarrow> (elem \<Rightarrow> bool) \<Rightarrow> dataset \<Rightarrow> bool" where
  "good n P ds = (\<exists>seen. walk n (deleting P) ds = Inr (prune P ds, seen) \<and> mset seen = mset (exposed P ds))"

definition exact :: "nat \<Rightarrow> (elem \<Rightarrow> bool) \<Rightarrow> dataset \<Rightarrow> bool" where
  "exact n P ds =
     (if reach P ds < n then good n P ds else walk n (deleting P) ds = Inl RecursionError)"

section \<open>Concrete inputs\<close>

text \<open>
  A stand-in for the library, for concrete runs: a file is the 128-byte preamble, the
  magic word and a payload; the payload \<^verbatim>\<open>DICOMDIR\<close> reads as a directory index, any
  other payload as a dataset whose only element is a study date holding it.
\<close>

definition toy_read :: "string \<Rightarrow> error + file_dataset" where
  "toy_read content =
     (if take 4 (drop 128 content) \<noteq> ''DICM'' then Inl InvalidDicomError
      else if drop 132 content = ''DICOMDIR'' then
        Inr \<lparr>elements = [],
             file_meta = [DataElement 0x00020002 ''UI'' (Raw ''1.2.840.10008.1.3.10'')]\<rparr>
      else
        Inr \<lparr>elements = (if drop 132 content = [] then []
                           else [DataElement 0x00080020 ''DA'' (Raw (drop 132 content))]),
             file_meta = [DataElement 0x00020002 ''UI'' (Raw ''1.2.840.10008.5.1.4.1.1.4'')]\<rparr>)"

definition toy_write :: "file_dataset \<Rightarrow> encoded" where
  "toy_write ds =
     Complete (replicate 128 (CHR 0x00) @ ''DICM'' @
          concat (map (\<lambda>e. case elem_value e of Raw s \<Rightarrow> s | Sequence items \<Rightarrow> []) (elements ds)))"

definition toy_library :: library where
  "toy_library = \<lparr>dcmread = toy_read, dcmwrite = toy_write,
                   tag_for_keyword = [''PatientName'' \<mapsto> 0x00100010, ''StudyDate'' \<mapsto> 0x00080020],
                   recursion_limit = 1000\<rparr>"

definition empty_world :: world where
  "empty_world = \<lparr>files = (\<lambda>p. None), status = (\<lambda>p. Neither), os_walk = (\<lambda>p. None),
                  writing = (\<lambda>p content. Stored), stdout = [], stderr = [], calls = []\<rparr>"

definition example_elements :: dataset where
  "example_elements =
     [DataElement 0x00080020 ''DA'' (Raw ''20220101''),
      DataElement 0x00081140 ''SQ''
        (Sequence [[DataElement 0x00080012 ''DA'' (Raw ''20211231''),
                    DataElement 0x00081155 ''UI'' (Raw ''1.2.3.4'')]]),
      DataElement 0x00100010 ''PN'' (Raw ''SURNAME^Firstname''),
      DataElement 0x00180012 ''SQ''
        (Sequence [[DataElement 0x00080100 ''SH'' (Raw ''C-B0300'')]]),
      DataElement 0x00180080 ''DS'' (Raw ''2000''),
      DataElement 0x00190010 ''LO'' (Raw ''VENDOR'')]"

definition example_meta :: dataset where
  "example_meta =
     [DataElement 0x00020002 ''UI'' (Raw ''1.2.840.10008.5.1.4.1.1.4''),
      DataElement 0x00020010 ''UI'' (Raw ''1.2.840.10008.1.2.1'')]"

definition magic :: string where
  "magic = replicate 128 (CHR 0x00) @ ''DICM''"

text \<open>
  A directory with a file that is not DICOM, a directory index and an image, and the
  same directory after an earlier run has left a backup beside the image.
\<close>

definition example_world :: world where
  "example_world =
     \<lparr>files = [[''dir1'', ''not_dicom''] \<mapsto> [],
               [''dir1'', ''DICOMDIR''] \<mapsto> magic @ ''DICOMDIR'',
               [''dir1'', ''test_1.dcm''] \<mapsto> magic @ ''20220101''],
      status = (\<lambda>p. if p = [''dir1''] then Directory
                    else if p \<in> set [[''dir1'', ''not_dicom''], [''dir1'', ''DICOMDIR''],
                                     [''dir1'', ''test_1.dcm'']] then Regular
                    else Neither),
      os_walk = [[''dir1''] \<mapsto> [([''dir1''], [], [''not_dicom'', ''DICOMDIR'', ''test_1.dcm''])]],
      writing = (\<lambda>p content. Stored),
      stdout = [], stderr = [], calls = []\<rparr>"

definition rerun_world :: world where
  "rerun_world =
     \<lparr>files = [[''dir1'', ''test_1.dcm''] \<mapsto> magic @ ''20220101'',
               [''dir1'', ''test_1.dcm.bak''] \<mapsto> magic @ ''20220101''],
      status = (\<lambda>p. if p = [''dir1''] then Directory
                    else if p \<in> set [[''dir1'', ''test_1.dcm''], [''dir1'', ''test_1.dcm.bak'']]
                    then Regular
                    else Neither),
      os_walk = [[''dir1''] \<mapsto> [([''dir1''], [], [''test_1.dcm'', ''test_1.dcm.bak''])]],
      writing = (\<lambda>p content. Stored),
      stdout = [], stderr = [], calls = []\<rparr>"

text \<open>
  A directory that lists a name that cannot be opened beside an image, and the example
  directory when the backup of the image cannot be written.
\<close>

definition dangling_world :: world where
  "dangling_world =
     \<lparr>files = [[''dir1'', ''test_1.dcm''] \<mapsto> magic @ ''20220101''],
      status = (\<lambda>p. if p = [''dir1''] then Directory
                    else if p = [''dir1'', ''test_1.dcm''] then Regular
                    else Neither),
      os_walk = [[''dir1''] \<mapsto> [([''dir1''], [], [''link'', ''test_1.dcm''])]],
      writing = (\<lambda>p content. Stored),
      stdout = [], stderr = [], calls = []\<rparr>"

definition locked_world :: world where
  "locked_world =
     example_world\<lparr>writing := (\<lambda>p content. if p = [''dir1'', ''test_1.dcm.bak''] then Denied else Stored)\<rparr>"

text \<open>
  A library under an interpreter that lets a walk enter no sequence item, and two
  datasets with one sequence each, a private one and a standard one.
\<close>

definition small_library :: library where
  "small_library = toy_library\<lparr>recursion_limit := 1\<rparr>"

definition nested_private :: dataset where
  "nested_private =
     [DataElement 0x00080020 ''DA'' (Raw ''20220101''),
      DataElement 0x00191000 ''SQ'' (Sequence [[DataElement 0x00080012 ''DA'' (Raw ''20211231'')]])]"

definition nested_plain :: dataset where
  "nested_plain =
     [DataElement 0x00081140 ''SQ'' (Sequence [[DataElement 0x00081155 ''UI'' (Raw ''1.2.3.4'')]]),
      DataElement 0x00100010 ''PN'' (Raw ''SURNAME^Firstname'')]"

section \<open>The walk computes the pruned dataset\<close>

lemma tag_descend [simp]: "tag (descend P e) = tag e"
  by (cases "(P, e)" rule: descend.cases) auto

lemma prune_concat: "prune P ds = concat (map (\<lambda>e. if P e then [] else [descend P e]) ds)"
  by (induction P ds rule: prune.induct) auto

lemma exposed_concat: "exposed P ds = concat (map (\<lambda>e. e # beneath P e) ds)"
  by (induction P ds rule: exposed.induct) auto

lemma partly_all: "tag ` set ds \<subseteq> T \<Longrightarrow> partly P T ds = prune P ds"
  unfolding partly_def prune_concat
  by (rule arg_cong[where f=concat], rule map_cong) (auto simp: settle_def)

lemma partly_none: "partly P {} ds = ds"
  unfolding partly_def by (induction ds) (auto simp: settle_def)

lemma tag_settle: "x \<in> set (settle P T e) \<Longrightarrow> tag x = tag e"
  by (auto simp: settle_def split: if_splits)

lemma keys_partly_subset: "x \<in> set (partly P T ds) \<Longrightarrow> tag x \<in> tag ` set ds"
  unfolding partly_def by (auto dest: tag_settle)

lemma find_partly:
  "distinct (map tag ds) \<Longrightarrow> e \<in> set ds \<Longrightarrow> tag e \<notin> T \<Longrightarrow>
   find (\<lambda>x. tag x = tag e) (partly P T ds) = Some e"
proof (induction ds)
  case Nil then show ?case by simp
next
  case (Cons a ds)
  show ?case
  proof (cases "a = e")
    case True
    then show ?thesis using Cons.prems by (simp add: partly_def settle_def)
  next
    case False
    then have e: "e \<in> set ds" using Cons.prems by simp
    then have ne: "tag a \<noteq> tag e" using Cons.prems by auto
    have "find (\<lambda>x. tag x = tag e) (settle P T a @ partly P T ds) = find (\<lambda>x. tag x = tag e) (partly P T ds)"
      using ne by (auto simp: settle_def)
    then show ?thesis using Cons e by (simp add: partly_def)
  qed
qed

lemma filter_partly:
  assumes "distinct (map tag ds)" "e \<in> set ds" "tag e \<notin> T" "P e"
  shows "filter (\<lambda>x. tag x \<noteq> tag e) (partly P T ds) = partly P (insert (tag e) T) ds"
proof -
  have "\<And>x. x \<in> set ds \<Longrightarrow> filter (\<lambda>y. tag y \<noteq> tag e) (settle P T x) = settle P (insert (tag e) T) x"
  proof -
    fix x assume x: "x \<in> set ds"
    show "filter (\<lambda>y. tag y \<noteq> tag e) (settle P T x) = settle P (insert (tag e) T) x"
    proof (cases "tag x = tag e")
      case True
      then have "x = e" using assms x by (meson distinct_map inj_onD)
      then show ?thesis using assms by (simp add: settle_def)
    next
      case False
      then show ?thesis by (auto simp: settle_def)
    qed
  qed
  then show ?thesis
    unfolding partly_def by (simp add: filter_concat comp_def cong: map_cong)
qed

lemma store_partly:
  assumes "distinct (map tag ds)" "e \<in> set ds" "tag e \<notin> T" "\<not> P e"
  shows "store_back (partly P T ds) (tag e) (descend P e) = partly P (insert (tag e) T) ds"
proof -
  have "\<And>x. x \<in> set ds \<Longrightarrow> map (\<lambda>y. if tag y = tag e then descend P e else y) (settle P T x) = settle P (insert (tag e) T) x"
  proof -
    fix x assume x: "x \<in> set ds"
    show "map (\<lambda>y. if tag y = tag e then descend P e else y) (settle P T x) = settle P (insert (tag e) T) x"
    proof (cases "tag x = tag e")
      case True
      then have "x = e" using assms x by (meson distinct_map inj_onD)
      then show ?thesis using assms by (simp add: settle_def)
    next
      case False
      then show ?thesis by (auto simp: settle_def)
    qed
  qed
  then show ?thesis
    unfolding partly_def store_back_def by (simp add: map_concat comp_def cong: map_cong)
qed

lemma contains_partly:
  assumes "distinct (map tag ds)" "e \<in> set ds" "tag e \<notin> T"
  shows "contains (partly P T ds) (tag e)"
proof -
  have "e \<in> set (partly P T ds)" using assms by (auto simp: partly_def settle_def)
  then show ?thesis by (auto simp: contains_def keys_def)
qed

lemma not_contains_partly:
  assumes "distinct (map tag ds)" "e \<in> set ds" "P e"
  shows "\<not> contains (partly P (insert (tag e) T) ds) (tag e)"
proof
  assume "contains (partly P (insert (tag e) T) ds) (tag e)"
  then obtain y x where y: "y \<in> set (settle P (insert (tag e) T) x)" "x \<in> set ds" "tag y = tag e"
    by (auto simp: contains_def keys_def partly_def)
  then have "tag x = tag e" by (auto dest: tag_settle)
  then have "x = e" using assms y by (meson distinct_map inj_onD)
  then show False using y assms by (simp add: settle_def)
qed


lemma walk_items_ok:
  "(\<forall>i \<in> set items. good n P i) \<Longrightarrow>
   \<exists>seen. walk_items n (deleting P) items = Inr (map (prune P) items, seen)
        \<and> mset seen = mset (concat (map (exposed P) items))"
proof (induction items)
  case Nil then show ?case by simp
next
  case (Cons item items)
  from Cons.prems obtain s1 where s1: "walk n (deleting P) item = Inr (prune P item, s1)" "mset s1 = mset (exposed P item)"
    by (auto simp: good_def)
  from Cons obtain s2 where s2: "walk_items n (deleting P) items = Inr (map (prune P) items, s2)"
     "mset s2 = mset (concat (map (exposed P) items))" by auto
  show ?case using s1 s2 by simp
qed

lemma getitem_partly:
  "distinct (map tag ds) \<Longrightarrow> e \<in> set ds \<Longrightarrow> tag e \<notin> T \<Longrightarrow> getitem (partly P T ds) (tag e) = Inr e"
  by (simp add: getitem_def find_partly)

lemma settle_unchanged:
  assumes "distinct (map tag ds)" "e \<in> set ds" "\<not> P e" "descend P e = e" "x \<in> set ds"
  shows "settle P (insert (tag e) T) x = settle P T x"
proof (cases "tag x = tag e")
  case True
  then have "x = e" using assms by (meson distinct_map inj_onD)
  then show ?thesis using assms by (simp add: settle_def)
next
  case False then show ?thesis by (simp add: settle_def)
qed

lemma partly_unchanged:
  assumes "distinct (map tag ds)" "e \<in> set ds" "\<not> P e" "descend P e = e"
  shows "partly P (insert (tag e) T) ds = partly P T ds"
  unfolding partly_def
  by (rule arg_cong[where f=concat], rule map_cong) (auto intro: settle_unchanged[where P=P, OF assms])

lemma mset_pick:
  assumes "distinct (map tag ds)" "e \<in> set ds" "tag e \<notin> S"
  shows "mset (concat (map f [x \<leftarrow> ds. tag x \<in> insert (tag e) S]))
       = mset (f e) + mset (concat (map f [x \<leftarrow> ds. tag x \<in> S]))"
  using assms
proof (induction ds)
  case Nil then show ?case by simp
next
  case (Cons a ds)
  show ?case
  proof (cases "a = e")
    case True
    then have "tag e \<notin> set (map tag ds)" using Cons.prems(1) by simp
    then have "\<forall>x \<in> set ds. tag x \<noteq> tag e" by (metis image_eqI list.set_map)
    then have "[x \<leftarrow> ds. tag x \<in> insert (tag e) S] = [x \<leftarrow> ds. tag x \<in> S]"
      by (auto intro: filter_cong)
    then show ?thesis using True Cons.prems by simp
  next
    case False
    then have "e \<in> set ds" "tag a \<noteq> tag e" using Cons.prems by auto
    then show ?thesis using Cons by auto
  qed
qed


lemma descend_Raw: "elem_value e = Raw s \<Longrightarrow> descend P e = e"
  by (cases e) auto

lemma descend_Sequence:
  "elem_value e = Sequence items \<Longrightarrow> descend P e = DataElement (tag e) (VR e) (Sequence (map (prune P) items))"
  by (cases e) auto

lemma beneath_Raw: "elem_value e = Raw s \<Longrightarrow> beneath P e = []"
  by (cases e) auto

lemma beneath_removed: "P e \<Longrightarrow> beneath P e = []"
  by (cases "(P, e)" rule: beneath.cases) auto

lemma beneath_Sequence:
  "elem_value e = Sequence items \<Longrightarrow> \<not> P e \<Longrightarrow> beneath P e = concat (map (exposed P) items)"
  by (cases e) auto

lemma valid_elem_cases:
  "valid_elem e \<Longrightarrow> (VR e = ''SQ'' \<and> (\<exists>items. elem_value e = Sequence items \<and> (\<forall>i \<in> set items. valid i)))
                     \<or> (VR e \<noteq> ''SQ'' \<and> (\<exists>s. elem_value e = Raw s))"
  by (cases e rule: valid_elem.cases) auto

lemma walk_tags_ok:
  assumes ds: "distinct (map tag ds)" "\<forall>e \<in> set ds. valid_elem e"
      and nested: "\<forall>e \<in> set ds. \<not> P e \<longrightarrow>
                     (\<forall>items. elem_value e = Sequence items \<longrightarrow> (\<forall>i \<in> set items. good n P i))"
  shows "distinct ts \<Longrightarrow> set ts \<subseteq> tag ` set ds \<Longrightarrow> set ts \<inter> T = {} \<Longrightarrow>
     \<exists>seen'. walk_tags n (deleting P) ts (partly P T ds, seen) = Inr (partly P (T \<union> set ts) ds, seen')
        \<and> mset seen' = mset seen + mset (concat (map (\<lambda>e. e # beneath P e) [e \<leftarrow> ds. tag e \<in> set ts]))"
proof (induction ts arbitrary: T seen)
  case Nil
  then show ?case by simp
next
  case (Cons t ts)
  from Cons.prems obtain e where e: "e \<in> set ds" "tag e = t" by auto
  have tT: "tag e \<notin> T" using Cons.prems e by auto
  have tts: "tag e \<notin> set ts" using Cons.prems e by auto
  have get: "getitem (partly P T ds) t = Inr e"
    using getitem_partly[OF ds(1) e(1) tT] e by simp
  have pre: "distinct ts" "set ts \<subseteq> tag ` set ds" "set ts \<inter> insert t T = {}"
    using Cons.prems e by auto
  have Un: "insert t T \<union> set ts = T \<union> set (t # ts)" by auto
  have pick: "mset (concat (map (\<lambda>e. e # beneath P e) [x \<leftarrow> ds. tag x \<in> set (t # ts)]))
        = mset (e # beneath P e) + mset (concat (map (\<lambda>e. e # beneath P e) [x \<leftarrow> ds. tag x \<in> set ts]))"
    using mset_pick[OF ds(1) e(1) tts, of "\<lambda>e. e # beneath P e"] e by simp
  show ?case
  proof (cases "P e")
    case True
    have del: "deleting P (partly P T ds) e = Inr (partly P (insert t T) ds)"
      using True contains_partly[OF ds(1) e(1) tT] filter_partly[where P=P, OF ds(1) e(1) tT True] e
      by (simp add: deleting_def delitem_def)
    have nc: "\<not> contains (partly P (insert t T) ds) t"
      using not_contains_partly[where P=P, OF ds(1) e(1) True] e by simp
    from Cons.IH[OF pre, of "seen @ [e]"] obtain seen' where
      s: "walk_tags n (deleting P) ts (partly P (insert t T) ds, seen @ [e]) = Inr (partly P (insert t T \<union> set ts) ds, seen')"
         "mset seen' = mset (seen @ [e]) + mset (concat (map (\<lambda>e. e # beneath P e) [e \<leftarrow> ds. tag e \<in> set ts]))"
      by blast
    have "walk_tags n (deleting P) (t # ts) (partly P T ds, seen) = Inr (partly P (T \<union> set (t # ts)) ds, seen')"
      using get del nc s(1) Un by simp
    moreover have "mset seen' = mset seen + mset (concat (map (\<lambda>e. e # beneath P e) [x \<leftarrow> ds. tag x \<in> set (t # ts)]))"
      using s(2) pick beneath_removed[where P=P, OF True] by simp
    ultimately show ?thesis by blast
  next
    case False
    have keep: "deleting P (partly P T ds) e = Inr (partly P T ds)"
      using False by (simp add: deleting_def)
    have c: "contains (partly P T ds) t"
      using contains_partly[OF ds(1) e(1) tT] e by simp
    from ds(2) e(1) have "valid_elem e" by blast
    from valid_elem_cases[OF this] show ?thesis
    proof
      assume sq: "VR e = ''SQ'' \<and> (\<exists>items. elem_value e = Sequence items \<and> (\<forall>i \<in> set items. valid i))"
      then obtain items where items: "elem_value e = Sequence items" by blast
      have "\<forall>i \<in> set items. good n P i" using nested e(1) items False by blast
      from walk_items_ok[OF this] obtain s1 where
        s1: "walk_items n (deleting P) items = Inr (map (prune P) items, s1)"
            "mset s1 = mset (concat (map (exposed P) items))" by blast
      have st: "store_back (partly P T ds) t (DataElement (tag e) (VR e) (Sequence (map (prune P) items)))
                 = partly P (insert t T) ds"
        using store_partly[where P=P, OF ds(1) e(1) tT False] descend_Sequence[OF items, of P] e by simp
      from Cons.IH[OF pre, of "seen @ e # s1"] obtain seen' where
        s: "walk_tags n (deleting P) ts (partly P (insert t T) ds, seen @ e # s1) = Inr (partly P (insert t T \<union> set ts) ds, seen')"
           "mset seen' = mset (seen @ e # s1) + mset (concat (map (\<lambda>e. e # beneath P e) [e \<leftarrow> ds. tag e \<in> set ts]))"
        by blast
      have "walk_tags n (deleting P) (t # ts) (partly P T ds, seen) = Inr (partly P (T \<union> set (t # ts)) ds, seen')"
        using get keep c sq items s1(1) st s(1) Un by simp
      moreover have "mset seen' = mset seen + mset (concat (map (\<lambda>e. e # beneath P e) [x \<leftarrow> ds. tag x \<in> set (t # ts)]))"
        using s(2) pick s1(2) beneath_Sequence[where P=P, OF items False] by simp
      ultimately show ?thesis by blast
    next
      assume raw: "VR e \<noteq> ''SQ'' \<and> (\<exists>s. elem_value e = Raw s)"
      then obtain r where r: "elem_value e = Raw r" by blast
      have same: "partly P (insert t T) ds = partly P T ds"
        using partly_unchanged[where P=P, OF ds(1) e(1) False descend_Raw[OF r]] e by simp
      from Cons.IH[OF pre, of "seen @ [e]"] obtain seen' where
        s: "walk_tags n (deleting P) ts (partly P (insert t T) ds, seen @ [e]) = Inr (partly P (insert t T \<union> set ts) ds, seen')"
           "mset seen' = mset (seen @ [e]) + mset (concat (map (\<lambda>e. e # beneath P e) [e \<leftarrow> ds. tag e \<in> set ts]))"
        by blast
      have "walk_tags n (deleting P) (t # ts) (partly P T ds, seen) = Inr (partly P (T \<union> set (t # ts)) ds, seen')"
        using get keep raw s(1) same Un by simp
      moreover have "mset seen' = mset seen + mset (concat (map (\<lambda>e. e # beneath P e) [x \<leftarrow> ds. tag x \<in> set (t # ts)]))"
        using s(2) pick beneath_Raw[OF r] by simp
      ultimately show ?thesis by blast
    qed
  qed
qed


lemma fold_max_ge: "(a::nat) \<le> fold max xs a"
proof (induction xs arbitrary: a)
  case Nil then show ?case by simp
next
  case (Cons x xs)
  have "a \<le> max x a" by simp
  also have "\<dots> \<le> fold max xs (max x a)" by (rule Cons.IH)
  finally show ?case by simp
qed

lemma fold_max_mem: "x \<in> set xs \<Longrightarrow> (x::nat) \<le> fold max xs a"
proof (induction xs arbitrary: a)
  case Nil then show ?case by simp
next
  case (Cons y ys)
  show ?case
  proof (cases "x = y")
    case True
    have "x \<le> max y a" using True by simp
    also have "\<dots> \<le> fold max ys (max y a)" by (rule fold_max_ge)
    finally show ?thesis by simp
  next
    case False
    then have "x \<in> set ys" using Cons.prems by simp
    then show ?thesis using Cons.IH by simp
  qed
qed

lemma nesting_item:
  "e \<in> set ds \<Longrightarrow> elem_value e = Sequence items \<Longrightarrow> item \<in> set items \<Longrightarrow> nesting item < nesting ds"
proof (induction ds rule: nesting.induct)
  case 1 then show ?case by simp
next
  case (2 t vr s ds)
  then show ?case by auto
next
  case (3 t vr its ds)
  show ?case
  proof (cases "e = DataElement t vr (Sequence its)")
    case True
    then have "item \<in> set its" using 3 by simp
    then have "nesting item \<le> fold max (map nesting its) 0" by (intro fold_max_mem) simp
    then show ?thesis by simp
  next
    case False
    then have "e \<in> set ds" using 3 by simp
    then have "nesting item < nesting ds" using 3 by simp
    then show ?thesis by simp
  qed
qed

lemma valid_item:
  "valid ds \<Longrightarrow> e \<in> set ds \<Longrightarrow> elem_value e = Sequence items \<Longrightarrow> item \<in> set items \<Longrightarrow> valid item"
proof -
  assume a: "valid ds" "e \<in> set ds" "elem_value e = Sequence items" "item \<in> set items"
  then have "valid_elem e" by simp
  from valid_elem_cases[OF this] a show "valid item" by auto
qed

lemma walk_ok: "valid ds \<Longrightarrow> nesting ds < n \<Longrightarrow> good n P ds"
proof (induction n arbitrary: ds)
  case 0 then show ?case by simp
next
  case (Suc n)
  have ds: "distinct (map tag ds)" "\<forall>e \<in> set ds. valid_elem e" using Suc.prems by auto
  have nested: "\<forall>e \<in> set ds. \<not> P e \<longrightarrow>
                  (\<forall>items. elem_value e = Sequence items \<longrightarrow> (\<forall>i \<in> set items. good n P i))"
  proof (intro ballI allI impI)
    fix e items item assume a: "e \<in> set ds" "elem_value e = Sequence items" "item \<in> set items"
    have "valid item" using valid_item[OF Suc.prems(1) a] .
    moreover have "nesting item < n" using nesting_item[OF a] Suc.prems(2) by simp
    ultimately show "good n P item" by (rule Suc.IH)
  qed
  have ts: "distinct (sort (keys ds))" "set (sort (keys ds)) \<subseteq> tag ` set ds" "set (sort (keys ds)) \<inter> {} = {}"
    using ds(1) by (auto simp: keys_def)
  from walk_tags_ok[where P=P, OF ds nested ts, of "[]"] obtain seen' where
    s: "walk_tags n (deleting P) (sort (keys ds)) (partly P {} ds, []) = Inr (partly P ({} \<union> set (sort (keys ds))) ds, seen')"
       "mset seen' = mset [] + mset (concat (map (\<lambda>e. e # beneath P e) [e \<leftarrow> ds. tag e \<in> set (sort (keys ds))]))"
    by blast
  have all: "[e \<leftarrow> ds. tag e \<in> set (sort (keys ds))] = ds"
    by (simp add: keys_def)
  have "partly P ({} \<union> set (sort (keys ds))) ds = prune P ds"
    by (rule partly_all) (simp add: keys_def)
  then have "walk (Suc n) (deleting P) ds = Inr (prune P ds, seen')"
    using s(1) by (simp add: partly_none)
  moreover have "mset seen' = mset (exposed P ds)"
    using s(2) all by (simp add: exposed_concat)
  ultimately show ?case unfolding good_def by blast
qed

text \<open>The walk fails exactly when it would go deeper than the limit.\<close>

lemma fold_max_witness: "(n::nat) \<le> fold max xs a \<Longrightarrow> n \<le> a \<or> (\<exists>x \<in> set xs. n \<le> x)"
proof (induction xs arbitrary: a)
  case Nil then show ?case by simp
next
  case (Cons x xs)
  from Cons.IH[of "max x a"] Cons.prems show ?case by auto
qed

lemma reach_item:
  "e \<in> set ds \<Longrightarrow> \<not> P e \<Longrightarrow> elem_value e = Sequence items \<Longrightarrow> item \<in> set items \<Longrightarrow>
   reach P item < reach P ds"
proof (induction P ds rule: reach.induct)
  case (1 P) then show ?case by simp
next
  case (2 P t vr s ds)
  then show ?case by auto
next
  case (3 P t vr its ds)
  show ?case
  proof (cases "e = DataElement t vr (Sequence its)")
    case True
    then have "item \<in> set its" using 3 by simp
    then have "Suc (reach P item) \<le> fold max (map (\<lambda>item. Suc (reach P item)) its) 0"
      by (intro fold_max_mem) simp
    moreover have "\<not> P (DataElement t vr (Sequence its))" using True "3.prems"(2) by simp
    ultimately show ?thesis by (simp add: less_max_iff_disj)
  next
    case False
    then have "e \<in> set ds" using "3.prems" by simp
    then have "reach P item < reach P ds" using 3 by simp
    then show ?thesis by (simp add: less_max_iff_disj)
  qed
qed

lemma reach_witness:
  "Suc n \<le> reach P ds \<Longrightarrow>
   \<exists>e \<in> set ds. \<not> P e \<and> (\<exists>items. elem_value e = Sequence items \<and> (\<exists>i \<in> set items. n \<le> reach P i))"
proof (induction P ds rule: reach.induct)
  case (1 P) then show ?case by simp
next
  case (2 P t vr s ds)
  then show ?case by auto
next
  case (3 P t vr its ds)
  show ?case
  proof (cases "Suc n \<le> reach P ds")
    case True
    then show ?thesis using 3 by auto
  next
    case False
    then have here: "\<not> P (DataElement t vr (Sequence its))"
        "Suc n \<le> fold max (map (\<lambda>item. Suc (reach P item)) its) 0"
      using "3.prems" by (auto split: if_splits)
    from fold_max_witness[OF here(2)] obtain i where "i \<in> set its" "n \<le> reach P i" by auto
    then show ?thesis using here(1) by auto
  qed
qed

lemma walk_items_fail:
  "(\<forall>i \<in> set items. exact n P i) \<Longrightarrow> (\<exists>i \<in> set items. n \<le> reach P i) \<Longrightarrow>
   walk_items n (deleting P) items = Inl RecursionError"
proof (induction items)
  case Nil then show ?case by simp
next
  case (Cons item items)
  show ?case
  proof (cases "n \<le> reach P item")
    case True
    then have "walk n (deleting P) item = Inl RecursionError"
      using Cons.prems(1) by (simp add: exact_def)
    then show ?thesis by simp
  next
    case False
    then obtain s1 where s1: "walk n (deleting P) item = Inr (prune P item, s1)"
      using Cons.prems(1) by (auto simp: exact_def good_def)
    have "\<exists>i \<in> set items. n \<le> reach P i" using Cons.prems(2) False by auto
    then have "walk_items n (deleting P) items = Inl RecursionError"
      using Cons.IH Cons.prems(1) by simp
    then show ?thesis using s1 by simp
  qed
qed

lemma walk_tags_fail:
  assumes ds: "distinct (map tag ds)" "\<forall>e \<in> set ds. valid_elem e"
      and nested: "\<forall>e \<in> set ds. \<not> P e \<longrightarrow>
                     (\<forall>items. elem_value e = Sequence items \<longrightarrow> (\<forall>i \<in> set items. exact n P i))"
  shows "distinct ts \<Longrightarrow> set ts \<subseteq> tag ` set ds \<Longrightarrow> set ts \<inter> T = {} \<Longrightarrow>
     (\<exists>b \<in> set ds. tag b \<in> set ts \<and> \<not> P b \<and>
         (\<exists>items. elem_value b = Sequence items \<and> (\<exists>i \<in> set items. n \<le> reach P i))) \<Longrightarrow>
     walk_tags n (deleting P) ts (partly P T ds, seen) = Inl RecursionError"
proof (induction ts arbitrary: T seen)
  case Nil
  then show ?case by simp
next
  case (Cons t ts)
  from Cons.prems obtain e where e: "e \<in> set ds" "tag e = t" by auto
  from Cons.prems(4) obtain b bitems bi where
    b: "b \<in> set ds" "tag b \<in> set (t # ts)" "\<not> P b" "elem_value b = Sequence bitems"
       "bi \<in> set bitems" "n \<le> reach P bi"
    by blast
  have uniq: "\<And>x. x \<in> set ds \<Longrightarrow> tag x = t \<Longrightarrow> x = e"
    using ds(1) e by (metis distinct_map inj_on_def)
  have tT: "tag e \<notin> T" using Cons.prems e by auto
  have get: "getitem (partly P T ds) t = Inr e"
    using getitem_partly[OF ds(1) e(1) tT] e by simp
  have pre: "distinct ts" "set ts \<subseteq> tag ` set ds" "set ts \<inter> insert t T = {}"
    using Cons.prems e by auto
  have later: "b \<noteq> e \<Longrightarrow>
      \<exists>b \<in> set ds. tag b \<in> set ts \<and> \<not> P b \<and>
         (\<exists>items. elem_value b = Sequence items \<and> (\<exists>i \<in> set items. n \<le> reach P i))"
  proof -
    assume "b \<noteq> e"
    then have "tag b \<noteq> t" using uniq b(1) by blast
    then have "tag b \<in> set ts" using b(2) by simp
    then show ?thesis using b by blast
  qed
  show ?case
  proof (cases "P e")
    case True
    have del: "deleting P (partly P T ds) e = Inr (partly P (insert t T) ds)"
      using True contains_partly[OF ds(1) e(1) tT] filter_partly[where P=P, OF ds(1) e(1) tT True] e
      by (simp add: deleting_def delitem_def)
    have nc: "\<not> contains (partly P (insert t T) ds) t"
      using not_contains_partly[where P=P, OF ds(1) e(1) True] e by simp
    have "b \<noteq> e" using True b(3) by blast
    from Cons.IH[OF pre later[OF this], of "seen @ [e]"]
    have "walk_tags n (deleting P) ts (partly P (insert t T) ds, seen @ [e]) = Inl RecursionError" .
    then show ?thesis using get del nc by simp
  next
    case False
    have keep: "deleting P (partly P T ds) e = Inr (partly P T ds)"
      using False by (simp add: deleting_def)
    have c: "contains (partly P T ds) t"
      using contains_partly[OF ds(1) e(1) tT] e by simp
    from ds(2) e(1) have "valid_elem e" by blast
    from valid_elem_cases[OF this] show ?thesis
    proof
      assume sq: "VR e = ''SQ'' \<and> (\<exists>items. elem_value e = Sequence items \<and> (\<forall>i \<in> set items. valid i))"
      then obtain items where items: "elem_value e = Sequence items" by blast
      have ex: "\<forall>i \<in> set items. exact n P i" using nested e(1) items False by blast
      show ?thesis
      proof (cases "\<exists>i \<in> set items. n \<le> reach P i")
        case True
        have "walk_items n (deleting P) items = Inl RecursionError"
          using walk_items_fail[OF ex True] .
        then show ?thesis using get keep c sq items by simp
      next
        case shallow: False
        then have "\<forall>i \<in> set items. good n P i" using ex by (auto simp: exact_def)
        from walk_items_ok[OF this] obtain s1 where
          s1: "walk_items n (deleting P) items = Inr (map (prune P) items, s1)" by blast
        have st: "store_back (partly P T ds) t (DataElement (tag e) (VR e) (Sequence (map (prune P) items)))
                   = partly P (insert t T) ds"
          using store_partly[where P=P, OF ds(1) e(1) tT False] descend_Sequence[OF items, of P] e by simp
        have "b \<noteq> e" using shallow b(4,5,6) items by auto
        from Cons.IH[OF pre later[OF this], of "seen @ e # s1"]
        have "walk_tags n (deleting P) ts (partly P (insert t T) ds, seen @ e # s1) = Inl RecursionError" .
        then show ?thesis using get keep c sq items s1 st by simp
      qed
    next
      assume raw: "VR e \<noteq> ''SQ'' \<and> (\<exists>s. elem_value e = Raw s)"
      then obtain r where r: "elem_value e = Raw r" by blast
      have same: "partly P (insert t T) ds = partly P T ds"
        using partly_unchanged[where P=P, OF ds(1) e(1) False descend_Raw[OF r]] e by simp
      have "b \<noteq> e" using r b(4) by auto
      from Cons.IH[OF pre later[OF this], of "seen @ [e]"]
      have "walk_tags n (deleting P) ts (partly P (insert t T) ds, seen @ [e]) = Inl RecursionError" .
      then show ?thesis using get keep raw same by simp
    qed
  qed
qed

lemma walk_exact: "valid ds \<Longrightarrow> exact n P ds"
proof (induction n arbitrary: ds)
  case 0 then show ?case by (simp add: exact_def)
next
  case (Suc n)
  have ds: "distinct (map tag ds)" "\<forall>e \<in> set ds. valid_elem e" using Suc.prems by auto
  have nested: "\<forall>e \<in> set ds. \<not> P e \<longrightarrow>
                  (\<forall>items. elem_value e = Sequence items \<longrightarrow> (\<forall>i \<in> set items. exact n P i))"
  proof (intro ballI allI impI)
    fix e items item assume a: "e \<in> set ds" "elem_value e = Sequence items" "item \<in> set items"
    have "valid item" using valid_item[OF Suc.prems(1) a] .
    then show "exact n P item" by (rule Suc.IH)
  qed
  have ts: "distinct (sort (keys ds))" "set (sort (keys ds)) \<subseteq> tag ` set ds" "set (sort (keys ds)) \<inter> {} = {}"
    using ds(1) by (auto simp: keys_def)
  show ?case
  proof (cases "reach P ds < Suc n")
    case True
    have good_items: "\<forall>e \<in> set ds. \<not> P e \<longrightarrow>
                  (\<forall>items. elem_value e = Sequence items \<longrightarrow> (\<forall>i \<in> set items. good n P i))"
    proof (intro ballI allI impI)
      fix e items item assume a: "e \<in> set ds" "\<not> P e" "elem_value e = Sequence items" "item \<in> set items"
      have "reach P item < n" using reach_item[where P=P, OF a] True by simp
      moreover have "exact n P item" using nested a by blast
      ultimately show "good n P item" by (simp add: exact_def)
    qed
    from walk_tags_ok[where P=P, OF ds good_items ts, of "[]"] obtain seen' where
      s: "walk_tags n (deleting P) (sort (keys ds)) (partly P {} ds, []) = Inr (partly P ({} \<union> set (sort (keys ds))) ds, seen')"
         "mset seen' = mset [] + mset (concat (map (\<lambda>e. e # beneath P e) [e \<leftarrow> ds. tag e \<in> set (sort (keys ds))]))"
      by blast
    have all: "[e \<leftarrow> ds. tag e \<in> set (sort (keys ds))] = ds"
      by (simp add: keys_def)
    have "partly P ({} \<union> set (sort (keys ds))) ds = prune P ds"
      by (rule partly_all) (simp add: keys_def)
    then have "walk (Suc n) (deleting P) ds = Inr (prune P ds, seen')"
      using s(1) by (simp add: partly_none)
    moreover have "mset seen' = mset (exposed P ds)"
      using s(2) all by (simp add: exposed_concat)
    ultimately have "good (Suc n) P ds" unfolding good_def by blast
    then show ?thesis using True by (simp add: exact_def)
  next
    case False
    then have "Suc n \<le> reach P ds" by simp
    from reach_witness[OF this] obtain b where
      b: "b \<in> set ds" "\<not> P b" "\<exists>items. elem_value b = Sequence items \<and> (\<exists>i \<in> set items. n \<le> reach P i)"
      by blast
    have "tag b \<in> set (sort (keys ds))" using b(1) by (simp add: keys_def)
    then have bad: "\<exists>b \<in> set ds. tag b \<in> set (sort (keys ds)) \<and> \<not> P b \<and>
         (\<exists>items. elem_value b = Sequence items \<and> (\<exists>i \<in> set items. n \<le> reach P i))"
      using b by blast
    have "walk_tags n (deleting P) (sort (keys ds)) (partly P {} ds, []) = Inl RecursionError"
      using walk_tags_fail[where P=P, OF ds nested ts bad] .
    then have "walk (Suc n) (deleting P) ds = Inl RecursionError" by (simp add: partly_none)
    then show ?thesis using False by (simp add: exact_def)
  qed
qed

section \<open>Properties of pruning\<close>

lemma callback_tags_deleting: "callback_tags ts = deleting (\<lambda>e. tag e \<in> set ts)"
  by (intro ext) (simp add: callback_tags_def deleting_def)

lemma callback_vr_deleting: "callback_vr vrs = deleting (\<lambda>e. VR e \<in> set vrs)"
  by (intro ext) (simp add: callback_vr_def deleting_def)

lemma callback_group_deleting: "callback_group gs = deleting (\<lambda>e. tag_group (tag e) \<in> set gs)"
  by (intro ext) (simp add: callback_group_def deleting_def)

lemma callback_private_deleting: "callback_private = deleting (\<lambda>e. is_private (tag e))"
  by (intro ext) (simp add: callback_private_def deleting_def)

lemma returned_walk:
  assumes "valid ds" "nesting ds < n"
  shows "returned (walk n (deleting P) ds) = Inr (prune P ds)"
proof -
  from walk_ok[OF assms, of P] obtain seen where "walk n (deleting P) ds = Inr (prune P ds, seen)"
    unfolding good_def by blast
  then show ?thesis by (simp add: returned_def)
qed




lemma remove_private_tags_ok:
  "valid ds \<Longrightarrow> nesting ds < n \<Longrightarrow> remove_private_tags n ds = Inr (prune (\<lambda>e. is_private (tag e)) ds)"
  by (simp add: remove_private_tags_def callback_private_deleting returned_walk)

lemma tag_own [simp]: "tag (own e) = tag e"
  by (cases e rule: own.cases) auto

lemma VR_own [simp]: "VR (own e) = VR e"
  by (cases e rule: own.cases) auto



lemma prune_unchanged: "(\<forall>e \<in> set (all_elems ds). \<not> P e) \<Longrightarrow> prune P ds = ds"
proof (induction ds rule: nesting.induct)
  case 1
  then show ?case by simp
next
  case (2 t vr s ds)
  then show ?case by (simp add: all_elems_def)
next
  case (3 t vr items ds)
  have notP: "\<not> P (DataElement t vr (Sequence items))" using 3(3) by (simp add: all_elems_def)
  have "map (prune P) items = map (\<lambda>i. i) items"
  proof (intro map_cong refl)
    fix i assume i: "i \<in> set items"
    have "\<forall>e \<in> set (all_elems i). \<not> P e" using 3(3) i by (auto simp: all_elems_def)
    then show "prune P i = i" using 3(1)[OF i] by simp
  qed
  moreover have "prune P ds = ds" using 3(2) 3(3) by (simp add: all_elems_def)
  ultimately show ?case using notP by simp
qed

lemma prune_never: "prune (\<lambda>e. False) ds = ds"
  by (rule prune_unchanged) simp

lemma own_descend: "own (descend P e) = own e"
  by (cases "(P, e)" rule: descend.cases) auto


lemma tags_prune: "map tag (prune P ds) = map tag [e \<leftarrow> ds. \<not> P e]"
  by (induction P ds rule: prune.induct) auto

lemma returned_walk_exact:
  assumes "valid ds"
  shows "returned (walk n (deleting P) ds)
       = (if reach P ds < n then Inr (prune P ds) else Inl RecursionError)"
proof (cases "reach P ds < n")
  case True
  then obtain seen where "walk n (deleting P) ds = Inr (prune P ds, seen)"
    using walk_exact[OF assms, of n P] by (auto simp: exact_def good_def)
  then show ?thesis using True by (simp add: returned_def)
next
  case False
  then have "walk n (deleting P) ds = Inl RecursionError"
    using walk_exact[OF assms, of n P] by (simp add: exact_def)
  then show ?thesis using False by (simp add: returned_def)
qed

lemma remove_tags_exact:
  "valid ds \<Longrightarrow> remove_tags n ds ts
     = (if reach (\<lambda>e. tag e \<in> set ts) ds < n then Inr (prune (\<lambda>e. tag e \<in> set ts) ds)
        else Inl RecursionError)"
  by (simp add: remove_tags_def callback_tags_deleting returned_walk_exact)

lemma remove_vr_tags_exact:
  "valid ds \<Longrightarrow> remove_vr_tags n ds vrs
     = (if reach (\<lambda>e. VR e \<in> set vrs) ds < n then Inr (prune (\<lambda>e. VR e \<in> set vrs) ds)
        else Inl RecursionError)"
  by (simp add: remove_vr_tags_def callback_vr_deleting returned_walk_exact)

lemma remove_group_tags_exact:
  "valid ds \<Longrightarrow> parse_groups groups = Inr gs \<Longrightarrow>
   remove_group_tags n ds groups
     = (if reach (\<lambda>e. tag_group (tag e) \<in> set gs) ds < n
        then Inr (prune (\<lambda>e. tag_group (tag e) \<in> set gs) ds)
        else Inl RecursionError)"
  by (simp add: remove_group_tags_def callback_group_deleting returned_walk_exact)

lemma remove_private_tags_exact:
  "valid ds \<Longrightarrow> remove_private_tags n ds
     = (if reach (\<lambda>e. is_private (tag e)) ds < n then Inr (prune (\<lambda>e. is_private (tag e)) ds)
        else Inl RecursionError)"
  by (simp add: remove_private_tags_def callback_private_deleting returned_walk_exact)

lemma valid_prune: "valid ds \<Longrightarrow> valid (prune P ds)"
proof (induction ds rule: nesting.induct)
  case 1
  then show ?case by simp
next
  case (2 t vr s ds)
  have ds: "valid ds" using 2(2) by auto
  have v: "valid (prune P ds)" using 2(1)[OF ds] .
  have "t \<notin> set (map tag (prune P ds))" using 2(2) by (auto simp: tags_prune)
  then show ?case using v 2(2) by auto
next
  case (3 t vr items ds)
  have ds: "valid ds" and its: "\<forall>i \<in> set items. valid i" and sq: "vr = ''SQ''" using 3(3) by auto
  have v: "valid (prune P ds)" using 3(2)[OF ds] .
  have "t \<notin> set (map tag (prune P ds))" using 3(3) by (auto simp: tags_prune)
  moreover have "\<forall>i \<in> set items. valid (prune P i)" using 3(1) its by blast
  ultimately show ?case using v sq by auto
qed




section \<open>The traversal and the command line\<close>





text \<open>
  Claim C9. Called with no argument, the program behaves as if called with \<^verbatim>\<open>-h\<close>:
  the help text goes to standard output and the process exits with status 0, before
  any file is looked at.
\<close>

theorem main_without_arguments:
  "main lib [prog] w = (Inl (SystemExit 0), w\<lparr>stdout := stdout w @ [HelpText]\<rparr>)"
  by (simp add: main_def parse_args_def parse_optional_def option_strings_def)

theorem main_without_arguments_witness:
  "main toy_library [''dcmrmel''] empty_world = (Inl (SystemExit 0), empty_world\<lparr>stdout := [HelpText]\<rparr>)"
  using main_without_arguments[of toy_library "''dcmrmel''" empty_world]
  by (simp add: empty_world_def)

section \<open>The removal passes\<close>

lemma pass_private_ok:
  assumes "valid (elements ds)" "nesting (elements ds) < recursion_limit lib"
  shows "pass_private lib a ds
       = Inr (ds\<lparr>elements := prune (\<lambda>e. rm_private a \<and> is_private (tag e)) (elements ds)\<rparr>)"
proof (cases "rm_private a")
  case True
  then show ?thesis using assms by (simp add: pass_private_def remove_private_tags_ok)
next
  case False
  then show ?thesis by (simp add: pass_private_def prune_never)
qed





lemma pass_private_exact:
  assumes "valid (elements ds)"
  shows "pass_private lib a ds
       = (if rm_private a \<and>
             recursion_limit lib \<le> reach (\<lambda>e. rm_private a \<and> is_private (tag e)) (elements ds)
          then Inl RecursionError
          else Inr (ds\<lparr>elements := prune (\<lambda>e. rm_private a \<and> is_private (tag e)) (elements ds)\<rparr>))"
proof (cases "rm_private a")
  case True
  then show ?thesis using assms by (simp add: pass_private_def remove_private_tags_exact not_less)
next
  case False
  then show ?thesis by (simp add: pass_private_def prune_never)
qed

lemma pass_vr_exact:
  assumes "valid (elements ds)" and "valid (file_meta ds)"
  shows "pass_vr lib a ds
       = (if rm_vr a \<noteq> None \<and>
             (recursion_limit lib \<le> reach (\<lambda>e. VR e \<in> set (the_list (rm_vr a))) (elements ds) \<or>
              recursion_limit lib \<le> reach (\<lambda>e. VR e \<in> set (the_list (rm_vr a))) (file_meta ds))
          then Inl RecursionError
          else Inr (ds\<lparr>elements := prune (\<lambda>e. VR e \<in> set (the_list (rm_vr a))) (elements ds),
                       file_meta := prune (\<lambda>e. VR e \<in> set (the_list (rm_vr a))) (file_meta ds)\<rparr>))"
proof (cases "rm_vr a")
  case None
  then show ?thesis by (simp add: pass_vr_def the_list_def prune_never)
next
  case (Some vrs)
  then show ?thesis using assms
    by (auto simp: pass_vr_def the_list_def remove_vr_tags_exact not_less simp del: valid.simps)
qed

lemma pass_group_exact:
  assumes "valid (elements ds)" and "valid (file_meta ds)"
      and "case rm_group a of None \<Rightarrow> gs = [] | Some groups \<Rightarrow> parse_groups groups = Inr gs"
  shows "pass_group lib a ds
       = (if rm_group a \<noteq> None \<and>
             (recursion_limit lib \<le> reach (\<lambda>e. tag_group (tag e) \<in> set gs) (elements ds) \<or>
              recursion_limit lib \<le> reach (\<lambda>e. tag_group (tag e) \<in> set gs) (file_meta ds))
          then Inl RecursionError
          else Inr (ds\<lparr>elements := prune (\<lambda>e. tag_group (tag e) \<in> set gs) (elements ds),
                       file_meta := prune (\<lambda>e. tag_group (tag e) \<in> set gs) (file_meta ds)\<rparr>))"
proof (cases "rm_group a")
  case None
  then show ?thesis using assms(3) by (simp add: pass_group_def prune_never)
next
  case (Some groups)
  then have "parse_groups groups = Inr gs" using assms(3) by simp
  then show ?thesis using Some assms(1,2)
    by (auto simp: pass_group_def remove_group_tags_exact not_less simp del: valid.simps)
qed

lemma resolve_tags_length: "resolve_tags dict ts = Inr tags \<Longrightarrow> length tags = length ts"
proof (induction ts arbitrary: tags)
  case Nil then show ?case by simp
next
  case (Cons t ts)
  then show ?case by (auto split: sum.splits)
qed

lemma pass_tag_exact:
  assumes "valid (elements ds)" and "valid (file_meta ds)"
      and "case rm_tag a of None \<Rightarrow> tags = [] | Some ts \<Rightarrow> resolve_tags (tag_for_keyword lib) ts = Inr tags"
  shows "pass_tag lib a ds
       = (if tags \<noteq> [] \<and>
             (recursion_limit lib \<le> reach (\<lambda>e. tag e \<in> set tags) (elements ds) \<or>
              recursion_limit lib \<le> reach (\<lambda>e. tag e \<in> set tags) (file_meta ds))
          then Inl RecursionError
          else Inr (ds\<lparr>elements := prune (\<lambda>e. tag e \<in> set tags) (elements ds),
                       file_meta := prune (\<lambda>e. tag e \<in> set tags) (file_meta ds)\<rparr>))"
proof (cases "rm_tag a")
  case None
  then show ?thesis using assms(3) by (simp add: pass_tag_def prune_never)
next
  case (Some ts)
  then have r: "resolve_tags (tag_for_keyword lib) ts = Inr tags" using assms(3) by simp
  show ?thesis
  proof (cases ts)
    case Nil
    then have "tags = []" using r by simp
    then show ?thesis using Some Nil by (simp add: pass_tag_def prune_never)
  next
    case (Cons t ts')
    have "tags \<noteq> []" using resolve_tags_length[OF r] Cons by auto
    then show ?thesis using Some r Cons assms(1,2)
      by (auto simp: pass_tag_def remove_tags_exact not_less simp del: valid.simps resolve_tags.simps)
  qed
qed

lemma pass_group_error:
  "rm_group a = Some groups \<Longrightarrow> parse_groups groups = Inl err \<Longrightarrow> pass_group lib a ds = Inl err"
  by (simp add: pass_group_def remove_group_tags_def)

lemma pass_tag_error:
  "rm_tag a = Some ts \<Longrightarrow> resolve_tags (tag_for_keyword lib) ts = Inl err \<Longrightarrow> pass_tag lib a ds = Inl err"
  by (cases ts) (simp_all add: pass_tag_def)

text \<open>
  Claim C4. Whatever the flags, the passes run on the loaded dataset in the order
  private tags, VR, group, explicit tags, and the order shows in every run. The run
  ends with \<^verbatim>\<open>RecursionError\<close> when the private pass goes deeper than the limit into
  the main dataset as it was read; if not, when the VR pass does so into what the
  private pass left or into the file-meta dataset; if not, with the error of a group
  that is no hexadecimal number, or when the group pass goes too deep into what the VR
  pass left; if not, with the error of a tag that cannot be resolved, or when the tag
  pass goes too deep into what the group pass left. Otherwise the main dataset that
  is written back is the result of the four prunings in that order, each with the
  selection its flag gives (nothing for a flag that is absent), and the file-meta
  dataset is the result of the VR, group and tag prunings only. A pass whose flag is
  absent does not run and cannot fail.
\<close>

theorem passes_in_fixed_order:
  assumes "valid (elements ds)" and "valid (file_meta ds)"
  shows "apply_passes lib a ds =
     (let lim = recursion_limit lib;
          priv = (\<lambda>e. rm_private a \<and> is_private (tag e));
          by_vr = (\<lambda>e. VR e \<in> set (the_list (rm_vr a)));
          m1 = prune priv (elements ds);
          m2 = prune by_vr m1;
          f2 = prune by_vr (file_meta ds)
      in if rm_private a \<and> lim \<le> reach priv (elements ds) then Inl RecursionError
         else if rm_vr a \<noteq> None \<and> (lim \<le> reach by_vr m1 \<or> lim \<le> reach by_vr (file_meta ds))
         then Inl RecursionError
         else
           (case (case rm_group a of None \<Rightarrow> Inr [] | Some groups \<Rightarrow> parse_groups groups) of
              Inl err \<Rightarrow> Inl err
            | Inr gs \<Rightarrow>
               (let by_group = (\<lambda>e. tag_group (tag e) \<in> set gs);
                    m3 = prune by_group m2;
                    f3 = prune by_group f2
                in if rm_group a \<noteq> None \<and> (lim \<le> reach by_group m2 \<or> lim \<le> reach by_group f2)
                   then Inl RecursionError
                   else
                     (case (case rm_tag a of None \<Rightarrow> Inr []
                            | Some ts \<Rightarrow> resolve_tags (tag_for_keyword lib) ts) of
                        Inl err \<Rightarrow> Inl err
                      | Inr tags \<Rightarrow>
                         (let by_tag = (\<lambda>e. tag e \<in> set tags)
                          in if tags \<noteq> [] \<and> (lim \<le> reach by_tag m3 \<or> lim \<le> reach by_tag f3)
                             then Inl RecursionError
                             else Inr (ds\<lparr>elements := prune by_tag m3,
                                          file_meta := prune by_tag f3\<rparr>))))))"
proof -
  let ?lim = "recursion_limit lib"
  let ?priv = "\<lambda>e. rm_private a \<and> is_private (tag e)"
  let ?by_vr = "\<lambda>e. VR e \<in> set (the_list (rm_vr a))"
  let ?d1 = "ds\<lparr>elements := prune ?priv (elements ds)\<rparr>"
  let ?d2 = "?d1\<lparr>elements := prune ?by_vr (elements ?d1), file_meta := prune ?by_vr (file_meta ?d1)\<rparr>"
  let ?groups = "case rm_group a of None \<Rightarrow> Inr [] | Some groups \<Rightarrow> parse_groups groups"
  let ?tags = "case rm_tag a of None \<Rightarrow> Inr [] | Some ts \<Rightarrow> resolve_tags (tag_for_keyword lib) ts"
  note p1 = pass_private_exact[OF assms(1), of lib a]
  show ?thesis
  proof (cases "rm_private a \<and> ?lim \<le> reach ?priv (elements ds)")
    case True
    have "pass_private lib a ds = Inl RecursionError"
      by (subst p1) (rule if_P[OF True])
    then have "apply_passes lib a ds = Inl RecursionError"
      by (simp add: apply_passes_def and_then_def)
    moreover have "?thesis = (apply_passes lib a ds = Inl RecursionError)"
      by (simp only: Let_def if_P[OF True])
    ultimately show ?thesis by simp
  next
    case c1: False
    have p1': "pass_private lib a ds = Inr ?d1"
      by (subst p1) (rule if_not_P[OF c1])
    have v1: "valid (elements ?d1)" "valid (file_meta ?d1)"
      using assms by (simp_all add: valid_prune del: valid.simps)
    note p2 = pass_vr_exact[OF v1, of lib a]
    show ?thesis
    proof (cases "rm_vr a \<noteq> None \<and> (?lim \<le> reach ?by_vr (elements ?d1) \<or> ?lim \<le> reach ?by_vr (file_meta ?d1))")
      case True
      have "pass_vr lib a ?d1 = Inl RecursionError"
        by (subst p2) (rule if_P[OF True])
      then have "apply_passes lib a ds = Inl RecursionError"
        by (simp only: apply_passes_def and_then_def p1' sum.case)
      moreover have "?thesis = (apply_passes lib a ds = Inl RecursionError)"
        using True by (simp only: Let_def if_not_P[OF c1]) simp
      ultimately show ?thesis by simp
    next
      case c2: False
      have p2': "pass_vr lib a ?d1 = Inr ?d2"
        by (subst p2) (rule if_not_P[OF c2])
      have c2': "\<not> (rm_vr a \<noteq> None \<and> (?lim \<le> reach ?by_vr (prune ?priv (elements ds)) \<or>
                    ?lim \<le> reach ?by_vr (file_meta ds)))"
        using c2 by simp
      have shape: "?thesis = (apply_passes lib a ds =
          (case ?groups of
              Inl err \<Rightarrow> Inl err
            | Inr gs \<Rightarrow>
               (let by_group = (\<lambda>e. tag_group (tag e) \<in> set gs);
                    m3 = prune by_group (prune ?by_vr (prune ?priv (elements ds)));
                    f3 = prune by_group (prune ?by_vr (file_meta ds))
                in if rm_group a \<noteq> None \<and>
                      (?lim \<le> reach by_group (prune ?by_vr (prune ?priv (elements ds))) \<or>
                       ?lim \<le> reach by_group (prune ?by_vr (file_meta ds)))
                   then Inl RecursionError
                   else
                     (case ?tags of
                        Inl err \<Rightarrow> Inl err
                      | Inr tags \<Rightarrow>
                         (let by_tag = (\<lambda>e. tag e \<in> set tags)
                          in if tags \<noteq> [] \<and> (?lim \<le> reach by_tag m3 \<or> ?lim \<le> reach by_tag f3)
                             then Inl RecursionError
                             else Inr (ds\<lparr>elements := prune by_tag m3,
                                          file_meta := prune by_tag f3\<rparr>))))))"
        by (simp only: Let_def if_not_P[OF c1] if_not_P[OF c2'])
      have v2: "valid (elements ?d2)" "valid (file_meta ?d2)"
        using assms by (simp_all add: valid_prune del: valid.simps)
      have start: "apply_passes lib a ds = and_then (pass_group lib a ?d2) (pass_tag lib a)"
        by (simp only: apply_passes_def and_then_def p1' p2' sum.case)
      show ?thesis
      proof (cases ?groups)
        case (Inl err)
        then obtain groups where g: "rm_group a = Some groups" "parse_groups groups = Inl err"
          by (auto split: option.splits)
        have "pass_group lib a ?d2 = Inl err" using pass_group_error[OF g] .
        then have "apply_passes lib a ds = Inl err" using start by (simp add: and_then_def)
        then show ?thesis unfolding shape using Inl by simp
      next
        case (Inr gs)
        then have sel: "case rm_group a of None \<Rightarrow> gs = [] | Some groups \<Rightarrow> parse_groups groups = Inr gs"
          by (auto split: option.splits)
        let ?by_group = "\<lambda>e. tag_group (tag e) \<in> set gs"
        let ?d3 = "?d2\<lparr>elements := prune ?by_group (elements ?d2),
                       file_meta := prune ?by_group (file_meta ?d2)\<rparr>"
        note p3 = pass_group_exact[OF v2 sel]
        show ?thesis
        proof (cases "rm_group a \<noteq> None \<and> (?lim \<le> reach ?by_group (elements ?d2) \<or> ?lim \<le> reach ?by_group (file_meta ?d2))")
          case True
          have "pass_group lib a ?d2 = Inl RecursionError"
            by (subst p3) (rule if_P[OF True])
          then have "apply_passes lib a ds = Inl RecursionError" using start by (simp add: and_then_def)
          then show ?thesis unfolding shape using Inr True by (simp add: Let_def)
        next
          case c3: False
          have p3': "pass_group lib a ?d2 = Inr ?d3"
            by (subst p3) (rule if_not_P[OF c3])
          have v3: "valid (elements ?d3)" "valid (file_meta ?d3)"
            using assms by (simp_all add: valid_prune del: valid.simps)
          have next_pass: "apply_passes lib a ds = pass_tag lib a ?d3"
            by (simp only: start and_then_def p3' sum.case)
          show ?thesis
          proof (cases ?tags)
            case (Inl err)
            then obtain ts where t: "rm_tag a = Some ts" "resolve_tags (tag_for_keyword lib) ts = Inl err"
              by (auto split: option.splits)
            have "apply_passes lib a ds = Inl err" using next_pass pass_tag_error[OF t] by simp
            then show ?thesis unfolding shape using c3 Inl \<open>?groups = Inr gs\<close> by (auto simp: Let_def)
          next
            case tags: (Inr tags)
            then have sel': "case rm_tag a of None \<Rightarrow> tags = []
                             | Some ts \<Rightarrow> resolve_tags (tag_for_keyword lib) ts = Inr tags"
              by (auto split: option.splits)
            note p4 = pass_tag_exact[OF v3 sel']
            have "apply_passes lib a ds = pass_tag lib a ?d3" using next_pass .
            then show ?thesis unfolding shape using p4 c3 tags \<open>?groups = Inr gs\<close> by (auto simp: Let_def)
          qed
        qed
      qed
    qed
  qed
qed

lemma VR_pred_own: "(VR (own e) \<in> set vrs) = (VR e \<in> set vrs)"
  by simp










theorem passes_in_fixed_order_witness:
  "apply_passes toy_library
      (defaults\<lparr>rm_private := True, rm_vr := Some [''DA''], rm_group := Some [''0x0018''],
                rm_tag := Some [''PatientName'']\<rparr>)
      \<lparr>elements = example_elements,
       file_meta = example_meta @ [DataElement 0x00030010 ''LO'' (Raw ''private'')]\<rparr>
   = Inr \<lparr>elements =
            [DataElement 0x00081140 ''SQ'' (Sequence [[DataElement 0x00081155 ''UI'' (Raw ''1.2.3.4'')]])],
          file_meta = example_meta @ [DataElement 0x00030010 ''LO'' (Raw ''private'')]\<rparr>
   \<and> apply_passes small_library (defaults\<lparr>rm_private := True, rm_vr := Some [''DA'']\<rparr>)
        \<lparr>elements = nested_private, file_meta = example_meta\<rparr>
     = Inr \<lparr>elements = [], file_meta = example_meta\<rparr>
   \<and> apply_passes small_library (defaults\<lparr>rm_vr := Some [''DA'']\<rparr>)
        \<lparr>elements = nested_private, file_meta = example_meta\<rparr>
     = Inl RecursionError
   \<and> apply_passes small_library (defaults\<lparr>rm_vr := Some [''SQ''], rm_group := Some [''0x0010'']\<rparr>)
        \<lparr>elements = nested_plain, file_meta = example_meta\<rparr>
     = Inr \<lparr>elements = [], file_meta = example_meta\<rparr>
   \<and> apply_passes small_library (defaults\<lparr>rm_group := Some [''0x0010'']\<rparr>)
        \<lparr>elements = nested_plain, file_meta = example_meta\<rparr>
     = Inl RecursionError
   \<and> apply_passes small_library (defaults\<lparr>rm_group := Some [''0x0008''], rm_tag := Some [''PatientName'']\<rparr>)
        \<lparr>elements = nested_plain, file_meta = example_meta\<rparr>
     = Inr \<lparr>elements = [], file_meta = example_meta\<rparr>
   \<and> apply_passes small_library (defaults\<lparr>rm_tag := Some [''PatientName'']\<rparr>)
        \<lparr>elements = nested_plain, file_meta = example_meta\<rparr>
     = Inl RecursionError
   \<and> apply_passes toy_library (defaults\<lparr>rm_group := Some [''group''], rm_tag := Some [''123456789'']\<rparr>)
        \<lparr>elements = example_elements, file_meta = example_meta\<rparr>
     = Inl ValueError
   \<and> Tag (tag_for_keyword toy_library) ''123456789'' = Inl OverflowError"
  using passes_in_fixed_order[where
      ds = "\<lparr>elements = example_elements,
        file_meta = example_meta @ [DataElement 0x00030010 ''LO'' (Raw ''private'')]\<rparr>"
      and lib = toy_library
      and a = "defaults\<lparr>rm_private := True, rm_vr := Some [''DA''], rm_group := Some [''0x0018''],
                 rm_tag := Some [''PatientName'']\<rparr>"]
    passes_in_fixed_order[where ds = "\<lparr>elements = nested_private, file_meta = example_meta\<rparr>"
      and lib = small_library and a = "defaults\<lparr>rm_private := True, rm_vr := Some [''DA'']\<rparr>"]
    passes_in_fixed_order[where ds = "\<lparr>elements = nested_private, file_meta = example_meta\<rparr>"
      and lib = small_library and a = "defaults\<lparr>rm_vr := Some [''DA'']\<rparr>"]
    passes_in_fixed_order[where ds = "\<lparr>elements = nested_plain, file_meta = example_meta\<rparr>"
      and lib = small_library and a = "defaults\<lparr>rm_vr := Some [''SQ''], rm_group := Some [''0x0010'']\<rparr>"]
    passes_in_fixed_order[where ds = "\<lparr>elements = nested_plain, file_meta = example_meta\<rparr>"
      and lib = small_library and a = "defaults\<lparr>rm_group := Some [''0x0010'']\<rparr>"]
    passes_in_fixed_order[where ds = "\<lparr>elements = nested_plain, file_meta = example_meta\<rparr>"
      and lib = small_library
      and a = "defaults\<lparr>rm_group := Some [''0x0008''], rm_tag := Some [''PatientName'']\<rparr>"]
    passes_in_fixed_order[where ds = "\<lparr>elements = nested_plain, file_meta = example_meta\<rparr>"
      and lib = small_library and a = "defaults\<lparr>rm_tag := Some [''PatientName'']\<rparr>"]
    passes_in_fixed_order[where ds = "\<lparr>elements = example_elements, file_meta = example_meta\<rparr>"
      and lib = toy_library
      and a = "defaults\<lparr>rm_group := Some [''group''], rm_tag := Some [''123456789'']\<rparr>"]
  by (simp add: toy_library_def small_library_def defaults_def example_elements_def example_meta_def
        nested_private_def nested_plain_def the_list_def Let_def
        tag_group_def is_private_def drop_bit_eq_div
        py_int16_def strip_def is_space_def digits16_def hex_digit_def Tag_def)

section \<open>Discovery, backup and write-back\<close>

lemma scan_files_cases:
  "scan_files w root fns acc =
     (if list_all (\<lambda>fn. files w (root @ [fn]) \<noteq> None) fns
      then Inr (acc @ [p \<leftarrow> map (\<lambda>fn. root @ [fn]) fns. has_magic w p])
      else Inl OSError)"
proof (induction fns arbitrary: acc)
  case Nil
  then show ?case by simp
next
  case (Cons fn fns)
  show ?case
  proof (cases "files w (root @ [fn])")
    case None
    then show ?thesis by (simp add: is_dicom_def)
  next
    case (Some content)
    have hm: "has_magic w (root @ [fn]) = (take 4 (drop 128 content) = ''DICM'')"
      using Some by (simp add: has_magic_def)
    show ?thesis using Cons.IH Some hm by (simp add: is_dicom_def)
  qed
qed

lemma scan_walk_cases:
  "scan_walk w listing acc =
     (if list_all (\<lambda>p. files w p \<noteq> None)
           (concat (map (\<lambda>(root, dirs, fns). map (\<lambda>fn. root @ [fn]) fns) listing))
      then Inr (acc @ [p \<leftarrow> concat (map (\<lambda>(root, dirs, fns). map (\<lambda>fn. root @ [fn]) fns) listing).
                       has_magic w p])
      else Inl OSError)"
proof (induction listing arbitrary: acc)
  case Nil
  then show ?case by simp
next
  case (Cons entry listing)
  obtain root dirs fns where e: "entry = (root, dirs, fns)" by (cases entry) auto
  have m: "list_all (\<lambda>p. files w p \<noteq> None) (map (\<lambda>fn. root @ [fn]) fns)
             = list_all (\<lambda>fn. files w (root @ [fn]) \<noteq> None) fns"
    by (simp add: list_all_iff)
  show ?case using Cons.IH e m by (simp add: scan_files_cases)
qed

text \<open>
  Claim C7, as amended. File discovery has five outcomes, decided in this order. A path
  that cannot be looked up: the error of the failed test, with no message of the
  program. A path that is neither a file nor a directory: the message naming it on
  standard error and exit status 1. A file looked at that cannot be opened: the error
  of the failed \<^verbatim>\<open>open\<close>, again with no message of the program. No file with the DICOM
  magic word among the files looked at: the second message on standard error and exit
  status 1. Otherwise the list of the files with the magic word, in walk order, with
  nothing written and nothing else changed; the other files are passed over in silence.
\<close>

theorem discovery_fails_in_four_cases:
  "make_dcm_fp_list pth w =
     (if status w pth = Inaccessible then (Inl OSError, w)
      else if status w pth \<noteq> Regular \<and> status w pth \<noteq> Directory then
        (Inl (SystemExit 1),
         w\<lparr>stderr := stderr w @
            [Text (''ERROR: '' @ path_str pth @ '' is neither a file or directory'' @ [CHR 0x0A])]\<rparr>)
      else if \<not> list_all (\<lambda>p. files w p \<noteq> None) (candidates w pth) then (Inl OSError, w)
      else if [p \<leftarrow> candidates w pth. has_magic w p] = [] then
        (Inl (SystemExit 1),
         w\<lparr>stderr := stderr w @ [Text (''ERROR: No valid DICOM files found, exiting'' @ [CHR 0x0A])]\<rparr>)
      else (Inr [p \<leftarrow> candidates w pth. has_magic w p], w))"
proof (cases "status w pth")
  case Regular
  show ?thesis
  proof (cases "files w pth")
    case None
    then show ?thesis using Regular
      by (simp add: make_dcm_fp_list_def is_file_def check_found_def candidates_def is_dicom_def)
  next
    case (Some content)
    then show ?thesis using Regular
      by (simp add: make_dcm_fp_list_def is_file_def check_found_def candidates_def is_dicom_def
            has_magic_def)
  qed
next
  case Directory
  show ?thesis
  proof (cases "os_walk w pth")
    case None
    then show ?thesis using Directory
      by (simp add: make_dcm_fp_list_def is_file_def is_dir_def check_found_def candidates_def
            the_list_def)
  next
    case (Some listing)
    then show ?thesis using Directory
      by (simp add: make_dcm_fp_list_def is_file_def is_dir_def check_found_def candidates_def
            the_list_def scan_walk_cases)
  qed
next
  case Neither
  then show ?thesis by (simp add: make_dcm_fp_list_def is_file_def is_dir_def)
next
  case Inaccessible
  then show ?thesis by (simp add: make_dcm_fp_list_def is_file_def)
qed

theorem discovery_fails_in_four_cases_witness:
  "make_dcm_fp_list [''dir1''] example_world
     = (Inr [[''dir1'', ''DICOMDIR''], [''dir1'', ''test_1.dcm'']], example_world)
   \<and> make_dcm_fp_list [''nowhere''] example_world
     = (Inl (SystemExit 1),
        example_world\<lparr>stderr := [Text (''ERROR: nowhere is neither a file or directory'' @ [CHR 0x0A])]\<rparr>)
   \<and> make_dcm_fp_list [''dir1'', ''not_dicom''] example_world
     = (Inl (SystemExit 1),
        example_world\<lparr>stderr := [Text (''ERROR: No valid DICOM files found, exiting'' @ [CHR 0x0A])]\<rparr>)"
  using discovery_fails_in_four_cases[of "[''dir1'']" example_world]
        discovery_fails_in_four_cases[of "[''nowhere'']" example_world]
        discovery_fails_in_four_cases[of "[''dir1'', ''not_dicom'']" example_world]
  by (simp add: example_world_def candidates_def the_list_def has_magic_def magic_def path_str_def)

text \<open>
  The claim as stated fails on a directory that lists, beside an image, a name that
  cannot be opened (a symbolic link whose target is gone): the path is a directory and
  a DICOM file is there, yet discovery ends the run, with the error of \<^verbatim>\<open>open\<close> and
  nothing on standard error.
\<close>

theorem discovery_fails_on_a_file_that_cannot_be_opened:
  "make_dcm_fp_list [''dir1''] dangling_world = (Inl OSError, dangling_world)
   \<and> isdir dangling_world [''dir1'']
   \<and> has_magic dangling_world [''dir1'', ''test_1.dcm'']
   \<and> stderr dangling_world = []"
  by (simp add: dangling_world_def make_dcm_fp_list_def is_file_def is_dir_def isdir_def
        check_found_def is_dicom_def has_magic_def magic_def)


lemma rfind_dot_Some:
  assumes "rfind_dot s = Some i"
  shows "i < length s \<and> s ! i = CHR ''.''"
proof -
  from assms obtain rest where "[k \<leftarrow> rev [0..<length s]. s ! k = CHR ''.''] = i # rest"
    by (auto simp: rfind_dot_def split: list.splits)
  then have "i \<in> set [k \<leftarrow> rev [0..<length s]. s ! k = CHR ''.'']" by simp
  then show ?thesis by auto
qed

lemma suffix_of_cases:
  "suffix_of nm = [] \<or> (\<exists>i. 0 < i \<and> i + 1 < length nm \<and> nm ! i = CHR ''.'' \<and> suffix_of nm = drop i nm)"
proof (cases "rfind_dot nm")
  case None
  then show ?thesis by (simp add: suffix_of_def)
next
  case (Some i)
  then show ?thesis using rfind_dot_Some[OF Some] by (auto simp: suffix_of_def)
qed

lemma backup_path:
  assumes "path_name fp \<noteq> []" and "CHR ''/'' \<notin> set (path_name fp)"
  shows "with_suffix fp (suffix_of (path_name fp) @ ''.bak'') = Inr (butlast fp @ [path_name fp @ ''.bak''])"
proof -
  let ?nm = "path_name fp"
  from suffix_of_cases[of ?nm] show ?thesis
  proof
    assume "suffix_of ?nm = []"
    then show ?thesis using assms by (simp add: with_suffix_def)
  next
    assume "\<exists>i. 0 < i \<and> i + 1 < length ?nm \<and> ?nm ! i = CHR ''.'' \<and> suffix_of ?nm = drop i ?nm"
    then obtain i where i: "0 < i" "i + 1 < length ?nm" "?nm ! i = CHR ''.''" "suffix_of ?nm = drop i ?nm"
      by blast
    have d: "drop i ?nm = CHR ''.'' # drop (Suc i) ?nm"
      using i(2,3) by (metis Cons_nth_drop_Suc add_lessD1)
    have ne: "drop (Suc i) ?nm \<noteq> []" using i(2) by simp
    have noslash: "CHR ''/'' \<notin> set (drop i ?nm)" using assms(2) by (meson in_set_dropD)
    have len: "length ?nm - length (drop i ?nm) = i" using i(2) by simp
    have "take i ?nm @ drop i ?nm = ?nm" by simp
    then have whole: "take i ?nm @ CHR ''.'' # drop (Suc i) ?nm = ?nm" using d by simp
    have "with_suffix fp (drop i ?nm @ ''.bak'') = Inr (butlast fp @ [?nm @ ''.bak''])"
      unfolding with_suffix_def i(4) Let_def len
      using noslash assms(1) d ne whole by simp
    then show ?thesis using i(4) by simp
  qed
qed

lemma backup_differs: "path_name fp \<noteq> [] \<Longrightarrow> butlast fp @ [path_name fp @ ''.bak''] \<noteq> fp"
proof
  assume a: "path_name fp \<noteq> []" and e: "butlast fp @ [path_name fp @ ''.bak''] = fp"
  from e have "last fp = path_name fp @ ''.bak''" by (metis last_snoc)
  moreover have "last fp = path_name fp" using a by (auto simp: path_name_def split: if_splits)
  ultimately show False by simp
qed

lemma inside_backup_differs: "butlast fp @ [x, y] \<noteq> fp"
proof
  assume "butlast fp @ [x, y] = fp"
  then have "length (butlast fp @ [x, y]) = length fp" by simp
  then show False by simp
qed

text \<open>One round of the loop on a file that is read, changed and written without an error.\<close>

lemma process_file_ok:
  assumes "files w fp = Some content" and "dcmread lib content = Inr ds" and "\<not> is_dicomdir ds"
    and "apply_passes lib a ds = Inr ds'" and "dcmwrite lib ds' = Complete content'"
    and "path_name fp \<noteq> []" and "CHR ''/'' \<notin> set (path_name fp)"
    and "\<not> no_backup a \<Longrightarrow>
           writing w (if isdir w (butlast fp @ [path_name fp @ ''.bak''])
                      then butlast fp @ [path_name fp @ ''.bak'', path_name fp]
                      else butlast fp @ [path_name fp @ ''.bak'']) content = Stored"
    and "writing w fp content' = Stored"
  shows "process_file lib a n_total fp_cnt fp w =
     (Inr (),
      if no_backup a then
        w\<lparr>stdout := stdout w @ [Progress fp_cnt n_total],
          files := (files w)(fp \<mapsto> content'),
          status := (status w)(fp := Regular),
          calls := calls w @ [Dcmread fp, SaveAs fp]\<rparr>
      else
        w\<lparr>stdout := stdout w @ [Progress fp_cnt n_total],
          files := (files w)
             ((if isdir w (butlast fp @ [path_name fp @ ''.bak''])
               then butlast fp @ [path_name fp @ ''.bak'', path_name fp]
               else butlast fp @ [path_name fp @ ''.bak'']) \<mapsto> content,
              fp \<mapsto> content'),
          status := (status w)
             ((if isdir w (butlast fp @ [path_name fp @ ''.bak''])
               then butlast fp @ [path_name fp @ ''.bak'', path_name fp]
               else butlast fp @ [path_name fp @ ''.bak'']) := Regular,
              fp := Regular),
          calls := calls w @ [Dcmread fp, Copy fp (butlast fp @ [path_name fp @ ''.bak'']), SaveAs fp]\<rparr>)"
proof (cases "no_backup a")
  case True
  then show ?thesis using assms(1-5,9)
    by (simp add: process_file_def progress_def backup_def save_as_def write_file_def)
next
  case False
  note bak = backup_path[OF assms(6,7)]
  note ne = backup_differs[OF assms(6)] inside_backup_differs[of fp "path_name fp @ ''.bak''" "path_name fp"]
  show ?thesis
  proof (cases "isdir w (butlast fp @ [path_name fp @ ''.bak''])")
    case True
    then show ?thesis using False assms(1-5,8,9) bak ne
      by (simp add: process_file_def progress_def backup_def shutil_copy_def save_as_def
            write_file_def isdir_def Let_def)
  next
    case nodir: False
    then show ?thesis using False assms(1-5,8,9) bak ne
      by (simp add: process_file_def progress_def backup_def shutil_copy_def save_as_def
            write_file_def isdir_def Let_def)
  qed
qed

text \<open>One round of the loop on a file whose backup cannot be written.\<close>

lemma process_file_copy_denied:
  assumes "files w fp = Some content" and "dcmread lib content = Inr ds" and "\<not> is_dicomdir ds"
    and "path_name fp \<noteq> []" and "CHR ''/'' \<notin> set (path_name fp)"
    and "\<not> no_backup a"
    and "writing w (if isdir w (butlast fp @ [path_name fp @ ''.bak''])
                    then butlast fp @ [path_name fp @ ''.bak'', path_name fp]
                    else butlast fp @ [path_name fp @ ''.bak'']) content = Denied"
  shows "process_file lib a n_total fp_cnt fp w =
     (Inl OSError, w\<lparr>stdout := stdout w @ [Progress fp_cnt n_total], calls := calls w @ [Dcmread fp]\<rparr>)"
proof -
  note bak = backup_path[OF assms(4,5)]
  note ne = backup_differs[OF assms(4)] inside_backup_differs[of fp "path_name fp @ ''.bak''" "path_name fp"]
  show ?thesis
  proof (cases "isdir w (butlast fp @ [path_name fp @ ''.bak''])")
    case True
    then show ?thesis using assms(1-3,6,7) bak ne
      by (simp add: process_file_def progress_def backup_def shutil_copy_def write_file_def isdir_def
            Let_def)
  next
    case False
    then show ?thesis using assms(1-3,6,7) bak ne
      by (simp add: process_file_def progress_def backup_def shutil_copy_def write_file_def isdir_def
            Let_def)
  qed
qed

text \<open>One round of the loop on a file that cannot be opened for writing, backups off.\<close>

lemma process_file_write_denied:
  assumes "files w fp = Some content" and "dcmread lib content = Inr ds" and "\<not> is_dicomdir ds"
    and "apply_passes lib a ds = Inr ds'" and "dcmwrite lib ds' = Complete content'"
    and "no_backup a" and "writing w fp content' = Denied"
  shows "process_file lib a n_total fp_cnt fp w =
     (Inl OSError, w\<lparr>stdout := stdout w @ [Progress fp_cnt n_total], calls := calls w @ [Dcmread fp]\<rparr>)"
  using assms by (simp add: process_file_def progress_def backup_def save_as_def write_file_def)

lemma no_flags_no_change:
  "\<not> rm_private a \<Longrightarrow> rm_vr a = None \<Longrightarrow> rm_group a = None \<Longrightarrow> rm_tag a = None \<Longrightarrow>
   apply_passes lib a ds = Inr ds"
  by (simp add: apply_passes_def and_then_def pass_private_def pass_vr_def pass_group_def pass_tag_def)

text \<open>
  Claim C5. A file that reads as a directory index is passed over: the round of the
  loop prints its progress line, reads the file, and does nothing else. No backup is
  made (the test comes before the copy), nothing is written, the files are what they
  were, and the loop goes on with the next file, whatever the other files are.
\<close>

theorem dicomdir_is_skipped:
  assumes "files w fp = Some content" and "dcmread lib content = Inr ds" and "is_dicomdir ds"
  shows "process_file lib a n_total fp_cnt fp w =
           (Inr (), w\<lparr>stdout := stdout w @ [Progress fp_cnt n_total],
                      calls := calls w @ [Dcmread fp]\<rparr>)
       \<and> files (snd (process_file lib a n_total fp_cnt fp w)) = files w
       \<and> main_loop lib a n_total fp_cnt (fp # fps) w =
           main_loop lib a n_total (Suc fp_cnt) fps
             (w\<lparr>stdout := stdout w @ [Progress fp_cnt n_total], calls := calls w @ [Dcmread fp]\<rparr>)"
  using assms by (simp add: process_file_def progress_def)

theorem dicomdir_is_skipped_witness:
  "process_file toy_library (defaults\<lparr>rm_vr := Some [''DA'']\<rparr>) 2 1 [''dir1'', ''DICOMDIR''] example_world
     = (Inr (), example_world\<lparr>stdout := [Progress 1 2], calls := [Dcmread [''dir1'', ''DICOMDIR'']]\<rparr>)"
  using dicomdir_is_skipped[where w = example_world and fp = "[''dir1'', ''DICOMDIR'']"
      and content = "magic @ ''DICOMDIR''" and lib = toy_library
      and ds = "\<lparr>elements = [], file_meta = [DataElement 0x00020002 ''UI'' (Raw ''1.2.840.10008.1.3.10'')]\<rparr>"
      and a = "defaults\<lparr>rm_vr := Some [''DA'']\<rparr>" and n_total = 2 and fp_cnt = 1]
  by (simp add: example_world_def toy_library_def toy_read_def magic_def is_dicomdir_def get_value_def
        getitem_def MediaStorageSOPClassUID_def MediaStorageDirectoryStorage_def)

text \<open>
  Claim C10, as amended. With no removal flag, a file that is not a directory index is
  still read, copied to its backup unless backups are off, and written again, provided
  the copy and the write go through: the bytes at its path afterwards are the library's
  encoding of the dataset as it was read, and the calls made are the read, the copy (to
  the path with \<^verbatim>\<open>.bak\<close> added to the name) and the write, in this order. When the
  backup cannot be written, or with backups off the file itself cannot be, the round
  ends in the error of the failed call after the read alone, nothing is written, and
  the loop stops there, leaving the remaining files as they are.
\<close>

theorem file_is_rewritten_unless_a_call_fails:
  assumes "files w fp = Some content" and "dcmread lib content = Inr ds" and "\<not> is_dicomdir ds"
    and "\<not> rm_private a" and "rm_vr a = None" and "rm_group a = None" and "rm_tag a = None"
    and "dcmwrite lib ds = Complete content'"
    and "path_name fp \<noteq> []" and "CHR ''/'' \<notin> set (path_name fp)"
  shows "((no_backup a \<or>
           writing w (if isdir w (butlast fp @ [path_name fp @ ''.bak''])
                      then butlast fp @ [path_name fp @ ''.bak'', path_name fp]
                      else butlast fp @ [path_name fp @ ''.bak'']) content = Stored)
          \<and> writing w fp content' = Stored \<longrightarrow>
          process_file lib a n_total fp_cnt fp w =
            (Inr (),
             if no_backup a then
               w\<lparr>stdout := stdout w @ [Progress fp_cnt n_total],
                 files := (files w)(fp \<mapsto> content'),
                 status := (status w)(fp := Regular),
                 calls := calls w @ [Dcmread fp, SaveAs fp]\<rparr>
             else
               w\<lparr>stdout := stdout w @ [Progress fp_cnt n_total],
                 files := (files w)
                    ((if isdir w (butlast fp @ [path_name fp @ ''.bak''])
                      then butlast fp @ [path_name fp @ ''.bak'', path_name fp]
                      else butlast fp @ [path_name fp @ ''.bak'']) \<mapsto> content,
                     fp \<mapsto> content'),
                 status := (status w)
                    ((if isdir w (butlast fp @ [path_name fp @ ''.bak''])
                      then butlast fp @ [path_name fp @ ''.bak'', path_name fp]
                      else butlast fp @ [path_name fp @ ''.bak'']) := Regular,
                     fp := Regular),
                 calls := calls w @ [Dcmread fp, Copy fp (butlast fp @ [path_name fp @ ''.bak'']),
                                     SaveAs fp]\<rparr>))
       \<and> (((\<not> no_backup a \<and>
             writing w (if isdir w (butlast fp @ [path_name fp @ ''.bak''])
                        then butlast fp @ [path_name fp @ ''.bak'', path_name fp]
                        else butlast fp @ [path_name fp @ ''.bak'']) content = Denied)
            \<or> (no_backup a \<and> writing w fp content' = Denied)) \<longrightarrow>
           process_file lib a n_total fp_cnt fp w =
             (Inl OSError,
              w\<lparr>stdout := stdout w @ [Progress fp_cnt n_total], calls := calls w @ [Dcmread fp]\<rparr>)
           \<and> main_loop lib a n_total fp_cnt (fp # fps) w =
             (Inl OSError,
              w\<lparr>stdout := stdout w @ [Progress fp_cnt n_total], calls := calls w @ [Dcmread fp]\<rparr>))"
proof -
  note same = no_flags_no_change[OF assms(4-7), of lib ds]
  have ok: "(no_backup a \<or>
           writing w (if isdir w (butlast fp @ [path_name fp @ ''.bak''])
                      then butlast fp @ [path_name fp @ ''.bak'', path_name fp]
                      else butlast fp @ [path_name fp @ ''.bak'']) content = Stored)
          \<and> writing w fp content' = Stored \<Longrightarrow> ?thesis"
    using process_file_ok[OF assms(1-3) same assms(8-10), of n_total fp_cnt]
    by (cases "no_backup a") auto
  have copy: "\<not> no_backup a \<and>
             writing w (if isdir w (butlast fp @ [path_name fp @ ''.bak''])
                        then butlast fp @ [path_name fp @ ''.bak'', path_name fp]
                        else butlast fp @ [path_name fp @ ''.bak'']) content = Denied \<Longrightarrow> ?thesis"
    using process_file_copy_denied[OF assms(1-3) assms(9,10), of a n_total fp_cnt]
    by auto
  have wr: "no_backup a \<and> writing w fp content' = Denied \<Longrightarrow> ?thesis"
    using process_file_write_denied[OF assms(1-3) same assms(8), of n_total fp_cnt]
    by auto
  show ?thesis using ok copy wr by blast
qed

theorem file_is_rewritten_unless_a_call_fails_witness:
  "process_file toy_library defaults 2 2 [''dir1'', ''test_1.dcm''] example_world
     = (Inr (),
        example_world
          \<lparr>stdout := [Progress 2 2],
           files := (files example_world)
              ([''dir1'', ''test_1.dcm.bak''] \<mapsto> magic @ ''20220101'',
               [''dir1'', ''test_1.dcm''] \<mapsto> magic @ ''20220101''),
           status := (status example_world)
              ([''dir1'', ''test_1.dcm.bak''] := Regular, [''dir1'', ''test_1.dcm''] := Regular),
           calls := [Dcmread [''dir1'', ''test_1.dcm''],
                     Copy [''dir1'', ''test_1.dcm''] [''dir1'', ''test_1.dcm.bak''],
                     SaveAs [''dir1'', ''test_1.dcm'']]\<rparr>)
   \<and> process_file toy_library defaults 2 2 [''dir1'', ''test_1.dcm''] locked_world
     = (Inl OSError,
        locked_world\<lparr>stdout := [Progress 2 2], calls := [Dcmread [''dir1'', ''test_1.dcm'']]\<rparr>)"
  using file_is_rewritten_unless_a_call_fails[where w = example_world and fp = "[''dir1'', ''test_1.dcm'']"
      and content = "magic @ ''20220101''" and lib = toy_library
      and ds = "\<lparr>elements = [DataElement 0x00080020 ''DA'' (Raw ''20220101'')],
                 file_meta = [DataElement 0x00020002 ''UI'' (Raw ''1.2.840.10008.5.1.4.1.1.4'')]\<rparr>"
      and a = defaults and content' = "magic @ ''20220101''" and n_total = 2 and fp_cnt = 2]
    file_is_rewritten_unless_a_call_fails[where w = locked_world and fp = "[''dir1'', ''test_1.dcm'']"
      and content = "magic @ ''20220101''" and lib = toy_library
      and ds = "\<lparr>elements = [DataElement 0x00080020 ''DA'' (Raw ''20220101'')],
                 file_meta = [DataElement 0x00020002 ''UI'' (Raw ''1.2.840.10008.5.1.4.1.1.4'')]\<rparr>"
      and a = defaults and content' = "magic @ ''20220101''" and n_total = 2 and fp_cnt = 2]
  by (simp add: example_world_def locked_world_def toy_library_def toy_read_def toy_write_def magic_def
        is_dicomdir_def get_value_def getitem_def MediaStorageSOPClassUID_def
        MediaStorageDirectoryStorage_def defaults_def path_name_def isdir_def)

text \<open>
  The claim as stated fails when the backup of a discovered image cannot be written
  (a directory without write permission, a name grown too long): the run over the
  example directory, with no removal flag and backups on, finds the image, reads it,
  and ends in the error of the copy. No backup exists afterwards and the image was not
  written again.
\<close>

theorem file_is_not_rewritten_when_the_backup_fails:
  "fst (make_dcm_fp_list [''dir1''] locked_world)
     = Inr [[''dir1'', ''DICOMDIR''], [''dir1'', ''test_1.dcm'']]
   \<and> fst (main toy_library [''dcmrmel'', ''dir1''] locked_world) = Inl OSError
   \<and> calls (snd (main toy_library [''dcmrmel'', ''dir1''] locked_world))
       = [Dcmread [''dir1'', ''DICOMDIR''], Dcmread [''dir1'', ''test_1.dcm'']]
   \<and> files (snd (main toy_library [''dcmrmel'', ''dir1''] locked_world)) [''dir1'', ''test_1.dcm.bak'']
       = None"
  by code_simp


lemma path_name_last: "path_name fp \<noteq> [] \<Longrightarrow> fp \<noteq> [] \<and> last fp = path_name fp"
  by (auto simp: path_name_def split: if_splits)

lemma path_name_backup:
  "path_name fp \<noteq> [] \<Longrightarrow> path_name (butlast fp @ [path_name fp @ ''.bak'']) = path_name fp @ ''.bak''"
  by (simp add: path_name_def)

text \<open>
  With any library: when the backup path of a file is itself in the list after the
  file, it ends up holding what the library wrote for the changed dataset, and the
  bytes the file had are one backup further.
\<close>

lemma backup_rewritten_by_later_round:
  assumes "files w fp = Some content" and "dcmread lib content = Inr ds" and "\<not> is_dicomdir ds"
    and "apply_passes lib a ds = Inr ds'" and "dcmwrite lib ds' = Complete content'"
    and "path_name fp \<noteq> []" and "CHR ''/'' \<notin> set (path_name fp)"
    and "\<not> no_backup a"
    and "\<not> isdir w (butlast fp @ [path_name fp @ ''.bak''])"
    and "\<not> isdir w (butlast fp @ [path_name fp @ ''.bak.bak''])"
    and "\<And>p c. writing w p c = Stored"
  shows "fst (main_loop lib a n_total fp_cnt [fp, butlast fp @ [path_name fp @ ''.bak'']] w) = Inr ()
       \<and> files (snd (main_loop lib a n_total fp_cnt [fp, butlast fp @ [path_name fp @ ''.bak'']] w))
            (butlast fp @ [path_name fp @ ''.bak'']) = Some content'
       \<and> files (snd (main_loop lib a n_total fp_cnt [fp, butlast fp @ [path_name fp @ ''.bak'']] w))
            (butlast fp @ [path_name fp @ ''.bak.bak'']) = Some content"
proof -
  let ?bak = "butlast fp @ [path_name fp @ ''.bak'']"
  let ?bakbak = "butlast fp @ [path_name fp @ ''.bak.bak'']"
  let ?w1 = "w\<lparr>stdout := stdout w @ [Progress fp_cnt n_total],
               files := (files w)(?bak \<mapsto> content, fp \<mapsto> content'),
               status := (status w)(?bak := Regular, fp := Regular),
               calls := calls w @ [Dcmread fp, Copy fp ?bak, SaveAs fp]\<rparr>"
  have r1: "process_file lib a n_total fp_cnt fp w = (Inr (), ?w1)"
    using process_file_ok[OF assms(1-7), of n_total fp_cnt] assms(8,9,11) by simp
  have ne: "?bak \<noteq> fp" using backup_differs[OF assms(6)] .
  have f1: "files ?w1 ?bak = Some content" using ne by simp
  have nm: "path_name ?bak = path_name fp @ ''.bak''" using path_name_backup[OF assms(6)] .
  have nm1: "path_name ?bak \<noteq> []" "CHR ''/'' \<notin> set (path_name ?bak)"
    using nm assms(7) by auto
  have bb: "butlast ?bak @ [path_name ?bak @ ''.bak''] = ?bakbak" using nm by simp
  have dir1: "\<not> isdir ?w1 ?bakbak" using assms(10) by (simp add: isdir_def)
  have st: "\<And>p c. writing ?w1 p c = Stored" using assms(11) by simp
  have r2: "process_file lib a n_total (Suc fp_cnt) ?bak ?w1 =
      (Inr (), ?w1\<lparr>stdout := stdout ?w1 @ [Progress (Suc fp_cnt) n_total],
                    files := (files ?w1)(?bakbak \<mapsto> content, ?bak \<mapsto> content'),
                    status := (status ?w1)(?bakbak := Regular, ?bak := Regular),
                    calls := calls ?w1 @ [Dcmread ?bak, Copy ?bak ?bakbak, SaveAs ?bak]\<rparr>)"
    using process_file_ok[OF f1 assms(2-5) nm1, of n_total "Suc fp_cnt"] assms(8) dir1 bb st by simp
  have neq2: "?bakbak \<noteq> ?bak" by simp
  show ?thesis using r1 r2 neq2 by simp
qed

text \<open>
  Claim C6 on a directory that already holds a backup. Discovery takes every file with
  the magic word, so the backup an earlier run left beside an image is listed like the
  image. With the image walked first, its round copies it over the old backup and
  rewrites the image; the round of the backup then copies the backup to a second
  backup and rewrites the backup itself. After the run the path with \<^verbatim>\<open>.bak\<close> added
  to the image's name holds the stripped bytes, not the bytes the image had.
\<close>

theorem backup_is_rewritten_when_it_is_processed:
  "fst (main toy_library [''dcmrmel'', ''dir1'', ''--rm-vr'', ''DA''] rerun_world) = Inr ()
   \<and> files rerun_world [''dir1'', ''test_1.dcm''] = Some (magic @ ''20220101'')
   \<and> files (snd (main toy_library [''dcmrmel'', ''dir1'', ''--rm-vr'', ''DA''] rerun_world))
         [''dir1'', ''test_1.dcm''] = Some magic
   \<and> files (snd (main toy_library [''dcmrmel'', ''dir1'', ''--rm-vr'', ''DA''] rerun_world))
         [''dir1'', ''test_1.dcm.bak''] = Some magic
   \<and> calls (snd (main toy_library [''dcmrmel'', ''dir1'', ''--rm-vr'', ''DA''] rerun_world))
       = [Dcmread [''dir1'', ''test_1.dcm''],
          Copy [''dir1'', ''test_1.dcm''] [''dir1'', ''test_1.dcm.bak''],
          SaveAs [''dir1'', ''test_1.dcm''],
          Dcmread [''dir1'', ''test_1.dcm.bak''],
          Copy [''dir1'', ''test_1.dcm.bak''] [''dir1'', ''test_1.dcm.bak.bak''],
          SaveAs [''dir1'', ''test_1.dcm.bak'']]"
  by code_simp

end
